theory Spec2Isabelle
  imports Main "HOL-Library.Word"
begin

unbundle bit_operations_syntax

section \<open>Machine words and byte order\<close>

text \<open>
  The source works on \<open>uint8_t\<close>, \<open>uint32_t\<close>, \<open>uint64_t\<close> and \<open>size_t\<close>. The model is
  the x86-64 build the header is written for: \<open>size_t\<close> is 64 bits wide and memory is
  little-endian, so that \<open>reinterpret_cast<const uint64_t*>(p)[i]\<close> reads the eight bytes
  at offset \<open>8 * i\<close> with the least significant byte first.
\<close>

type_synonym u8 = "8 word"
type_synonym u32 = "32 word"
type_synonym u64 = "64 word"
type_synonym u128w = "128 word"

text \<open>Little-endian reading of a byte sequence as one word.\<close>

fun le_word :: "u8 list \<Rightarrow> 'a::len word" where
  "le_word [] = 0"
| "le_word (b # bs) = ucast b OR push_bit 8 (le_word bs)"

text \<open>The \<open>n\<close> bytes of a word in memory order (least significant first).\<close>

fun le_bytes :: "nat \<Rightarrow> 'a::len word \<Rightarrow> u8 list" where
  "le_bytes 0 w = []"
| "le_bytes (Suc n) w = ucast w # le_bytes n (drop_bit 8 w)"

text \<open>\<open>memcpy(dst + off, src, length src)\<close> on an array held as a list.\<close>

definition memcpy :: "'a list \<Rightarrow> nat \<Rightarrow> 'a list \<Rightarrow> 'a list" where
  "memcpy dst off src = take off dst @ src @ drop (off + length src) dst"

text \<open>\<open>memset(dst + off, c, n)\<close>.\<close>

definition memset :: "'a list \<Rightarrow> nat \<Rightarrow> 'a \<Rightarrow> nat \<Rightarrow> 'a list" where
  "memset dst off c n = take off dst @ replicate n c @ drop (off + n) dst"

section \<open>jsHash: the mixing primitive\<close>

definition MIX :: u64 where "MIX = 0xbf58476d1ce4e5b9"
definition PHI :: u64 where "PHI = 0x9e3779b97f4a7c15"
definition PHI2 :: u64 where "PHI2 = 0x6c62272e07bb0143"

text \<open>
  \<open>rotl\<close> as the header defines it for compilers without \<open>std::rotl\<close>:
  \<open>(x << r) | (x >> (64 - r))\<close>. It is called with \<open>r\<close> = 11, 23, 31 and 43, where
  \<open>std::rotl\<close> gives the same word.
\<close>

definition rotl :: "u64 \<Rightarrow> nat \<Rightarrow> u64" where
  "rotl x r = push_bit r x OR drop_bit (64 - r) x"

text \<open>
  Modelled from the spec: the header \<open>u128.h\<close> with the type \<open>u128::u128\<close> is missing.
  \<open>jsHash.h\<close> uses the type as a pair of 64-bit halves, built by \<open>{lo, hi}\<close> and read
  by \<open>.lo\<close> and \<open>.hi\<close>.
\<close>

record u128 =
  lo :: u64
  hi :: u64

definition LO :: "u64 \<Rightarrow> u64" where "LO x = x AND 0xFFFFFFFF"
definition HI :: "u64 \<Rightarrow> u64" where "HI x = drop_bit 32 x"

definition mul64_portable :: "u64 \<Rightarrow> u64 \<Rightarrow> u128" where
  "mul64_portable a b =
    (let p00 = LO a * LO b;
         p01 = LO a * HI b;
         p10 = HI a * LO b;
         p11 = HI a * HI b;
         x = HI p00 + LO p01 + LO p10;
         y = HI p01 + HI p10 + LO p11 + HI x
     in \<lparr> lo = LO p00 OR push_bit 32 x, hi = y + push_bit 32 (HI p11) \<rparr>)"

text \<open>The branch taken with \<open>__uint128_t\<close> (and, with the same meaning, \<open>_umul128\<close>).\<close>

definition mix :: "u64 \<Rightarrow> u64 \<Rightarrow> u64" where
  "mix a b =
    (let p = (ucast a :: u128w) * ucast (b XOR MIX)
     in a XOR b XOR ucast p XOR ucast (drop_bit 64 p))"

text \<open>The portable fallback branch.\<close>

definition mix_portable :: "u64 \<Rightarrow> u64 \<Rightarrow> u64" where
  "mix_portable a b =
    (let p = mul64_portable a (b XOR MIX)
     in a XOR b XOR lo p XOR hi p)"

section \<open>jsHash: state, construction and insertion\<close>

text \<open>
  The lanes \<open>v[0..3]\<close> are a list of four words, the buffer a list of 32 bytes.
  \<open>buffer_index\<close> is an \<open>int\<close> in the source; it only takes the values 0 to 32 and is a
  natural number here.
\<close>

record jsHash =
  v :: "u64 list"
  nbytes :: u64
  buffer :: "u8 list"
  buffer_index :: nat

text \<open>
  The only way \<open>insert\<close> does not return: the byte counter wrapped, the source prints a
  message and calls \<open>exit(EXIT_FAILURE)\<close>.
\<close>

datatype fatal = CounterOverflow

text \<open>\<open>SplitMix64::operator()\<close>: the value returned and the generator's new state.\<close>

definition SplitMix64 :: "u64 \<Rightarrow> u64 \<times> u64" where
  "SplitMix64 st =
    (let st' = st + 0x9e3779b97f4a7c15;
         z = st';
         z = (z XOR drop_bit 30 z) * 0xbf58476d1ce4e5b9;
         z = (z XOR drop_bit 27 z) * 0x94d049bb133111eb
     in (z XOR drop_bit 31 z, st'))"

text \<open>The constructor \<open>jsHash(uint64_t key)\<close>.\<close>

definition jsHash_new :: "u64 \<Rightarrow> jsHash" where
  "jsHash_new key =
    (let (a, gen) = SplitMix64 key;
         (b, gen) = SplitMix64 gen;
         (c, gen) = SplitMix64 gen;
         (d, gen) = SplitMix64 gen
     in \<lparr> v = [a, b, c, d], nbytes = 0, buffer = replicate 32 0, buffer_index = 0 \<rparr>)"

text \<open>The copy constructor copies the four fields.\<close>

definition jsHash_copy :: "jsHash \<Rightarrow> jsHash" where
  "jsHash_copy other =
    \<lparr> v = v other, nbytes = nbytes other, buffer = buffer other,
      buffer_index = buffer_index other \<rparr>"

text \<open>\<open>src[i]\<close> for \<open>src = reinterpret_cast<const uint64_t*>(p)\<close>.\<close>

definition src64 :: "u8 list \<Rightarrow> nat \<Rightarrow> u64" where
  "src64 p i = le_word (take 8 (drop (8 * i) p))"

definition process_32bytes :: "jsHash \<Rightarrow> u8 list \<Rightarrow> jsHash" where
  "process_32bytes h p =
    (let h = h\<lparr> v := (v h)[0 := mix (v h ! 0) (src64 p 0)] \<rparr>;
         h = h\<lparr> v := (v h)[1 := mix (v h ! 1) (src64 p 1)] \<rparr>;
         h = h\<lparr> v := (v h)[2 := mix (v h ! 2) (src64 p 2)] \<rparr>;
         h = h\<lparr> v := (v h)[3 := mix (v h ! 3) (src64 p 3)] \<rparr>
     in h)"

definition process_buffer :: "jsHash \<Rightarrow> jsHash" where
  "process_buffer h =
    (if buffer_index h < 32 then h
     else (process_32bytes h (buffer h))\<lparr> buffer_index := 0 \<rparr>)"

text \<open>
  The fast path \<open>while (remaining >= 32)\<close>: the pointer is the list of bytes not yet
  consumed, \<open>remaining\<close> its length.
\<close>

function fast_path :: "jsHash \<Rightarrow> u8 list \<Rightarrow> jsHash \<times> u8 list" where
  "fast_path h ptr =
    (if 32 \<le> length ptr then fast_path (process_32bytes h ptr) (drop 32 ptr)
     else (h, ptr))"
  by pat_completeness auto
termination
  by (relation "measure (\<lambda>(h, ptr). length ptr)") auto

declare fast_path.simps [simp del]

text \<open>
  \<open>insert(const uint8_t* x, size_t size)\<close>: the argument is the list of the \<open>size\<close> bytes
  at \<open>x\<close>; a \<open>size_t\<close> holds its length, so the list is shorter than \<open>2 ^ 64\<close>.
  In a state with \<open>buffer_index < 32\<close> and a 32-byte buffer (every state the public
  interface produces) all copies stay inside the buffer.
\<close>

definition insert_bytes :: "jsHash \<Rightarrow> u8 list \<Rightarrow> fatal + jsHash" where
  "insert_bytes h x =
    (if length x = 0 then Inr h
     else
       let (h, ptr) =
             (if 0 < buffer_index h then
                let needed = 32 - buffer_index h;
                    tk = min needed (length x);
                    h = h\<lparr> buffer := memcpy (buffer h) (buffer_index h) (take tk x) \<rparr>;
                    h = h\<lparr> buffer_index := buffer_index h + tk \<rparr>;
                    h = (if buffer_index h = 32 then process_buffer h else h)
                in (h, drop tk x)
              else (h, x));
           (h, ptr) = fast_path h ptr;
           h = (if 0 < length ptr
                then h\<lparr> buffer := memcpy (buffer h) 0 ptr, buffer_index := length ptr \<rparr>
                else h);
           h = h\<lparr> nbytes := nbytes h + of_nat (length x) \<rparr>
       in if nbytes h < of_nat (length x) then Inl CounterOverflow else Inr h)"

text \<open>A sequence of \<open>insert\<close> calls; the first fatal error ends the process.\<close>

fun insert_all :: "jsHash \<Rightarrow> u8 list list \<Rightarrow> fatal + jsHash" where
  "insert_all h [] = Inr h"
| "insert_all h (x # xs) =
    (case insert_bytes h x of Inl e \<Rightarrow> Inl e | Inr h' \<Rightarrow> insert_all h' xs)"

section \<open>jsHash: standard finalization\<close>

text \<open>
  The block \<open>if (temp.buffer_index > 0) { memset; temp.buffer_index = 32; process_buffer(); }\<close>
  that opens both \<open>hash256\<close> and \<open>hash_secure\<close>, applied to their local copy.
\<close>

definition flush_tail :: "jsHash \<Rightarrow> jsHash" where
  "flush_tail temp =
    (if 0 < buffer_index temp then
       let temp = temp\<lparr> buffer := memset (buffer temp) (buffer_index temp) 0
                                  (32 - buffer_index temp) \<rparr>;
           temp = temp\<lparr> buffer_index := 32 \<rparr>
       in process_buffer temp
     else temp)"

text \<open>
  The finalizers are \<open>const\<close> methods working on a local copy. Each is modelled as a call
  that returns its digest together with the object it was called on, as that object is
  after the call.
\<close>

definition hash256_call :: "jsHash \<Rightarrow> u64 list \<times> jsHash" where
  "hash256_call this =
    (let temp = jsHash_copy this;
         temp = flush_tail temp;
         a = v temp ! 0; b = v temp ! 1; c = v temp ! 2; d = v temp ! 3;
         a = mix a (nbytes temp);
         b = mix b (drop_bit 32 (nbytes temp));
         c = mix c PHI;
         d = mix d PHI2;
         t = mix a b; a = a XOR t; b = b XOR rotl t 11;
         t = mix c d; c = c XOR t; d = d XOR rotl t 23;
         t = mix a d; a = a XOR t; d = d XOR rotl t 31;
         t = mix b c; b = b XOR t; c = c XOR rotl t 43
     in ([a, b, c, d], this))"

definition hash128_call :: "jsHash \<Rightarrow> u64 list \<times> jsHash" where
  "hash128_call this =
    (let (h256, this) = hash256_call this
     in ([h256 ! 0 XOR h256 ! 1, h256 ! 2 XOR h256 ! 3], this))"

definition hash64_call :: "jsHash \<Rightarrow> u64 \<times> jsHash" where
  "hash64_call this =
    (let (h256, this) = hash256_call this
     in (h256 ! 0 XOR h256 ! 1 XOR h256 ! 2 XOR h256 ! 3, this))"

definition hash256 :: "jsHash \<Rightarrow> u64 list" where
  "hash256 h = fst (hash256_call h)"

definition hash128 :: "jsHash \<Rightarrow> u64 list" where
  "hash128 h = fst (hash128_call h)"

definition hash64 :: "jsHash \<Rightarrow> u64" where
  "hash64 h = fst (hash64_call h)"

section \<open>ChaCha20\<close>

text \<open>
  \<open>ChaChaKey\<close> is an array of eight and \<open>ChaChaNonce\<close> an array of three 32-bit words;
  both are lists of that length.
\<close>

type_synonym ChaChaKey = "u32 list"
type_synonym ChaChaNonce = "u32 list"

record ChaCha20 =
  state :: "u32 list"
  keystream :: "u32 list"
  keystream_pos :: nat
  block_counter :: u64

definition sigma :: "u32 list" where
  "sigma = [0x61707865, 0x3320646e, 0x79622d32, 0x6b206574]"

text \<open>The constructor; \<open>initial_counter\<close> defaults to 1 in the source.\<close>

definition ChaCha20_new :: "ChaChaKey \<Rightarrow> ChaChaNonce \<Rightarrow> u64 \<Rightarrow> ChaCha20" where
  "ChaCha20_new key nonce initial_counter =
    (let st = replicate 16 0;
         st = memcpy st 0 sigma;
         st = memcpy st 4 key;
         st = st[12 := ucast initial_counter];
         st = st[13 := ucast (drop_bit 32 initial_counter)];
         st = st[14 := nonce ! 0];
         st = st[15 := nonce ! 1]
     in \<lparr> state = st, keystream = replicate 16 0, keystream_pos = 64,
          block_counter = initial_counter \<rparr>)"

text \<open>
  The quarter round on four words; \<open>std::rotl\<close> on \<open>uint32_t\<close> is the rotation
  \<open>word_rotl\<close> of the word library.
\<close>

definition rotl32 :: "u32 \<Rightarrow> nat \<Rightarrow> u32" where
  "rotl32 x r = word_rotl r x"

fun QR :: "u32 \<times> u32 \<times> u32 \<times> u32 \<Rightarrow> u32 \<times> u32 \<times> u32 \<times> u32" where
  "QR (a, b, c, d) =
    (let a = a + b; d = d XOR a; d = rotl32 d 16;
         c = c + d; b = b XOR c; b = rotl32 b 12;
         a = a + b; d = d XOR a; d = rotl32 d 8;
         c = c + d; b = b XOR c; b = rotl32 b 7
     in (a, b, c, d))"

declare QR.simps [simp del]

text \<open>\<open>QR(input[i], input[j], input[k], input[l])\<close> on the array, through the references.\<close>

definition QR_at :: "nat \<Rightarrow> nat \<Rightarrow> nat \<Rightarrow> nat \<Rightarrow> u32 list \<Rightarrow> u32 list" where
  "QR_at i j k l input =
    (case QR (input ! i, input ! j, input ! k, input ! l) of
       (a, b, c, d) \<Rightarrow> input[i := a, j := b, k := c, l := d])"

text \<open>The body of the loop \<open>for (int r = 0; r < 10; ++r)\<close>.\<close>

definition round_body :: "u32 list \<Rightarrow> u32 list" where
  "round_body input =
    (let input = QR_at 0 4 8 12 input;
         input = QR_at 1 5 9 13 input;
         input = QR_at 2 6 10 14 input;
         input = QR_at 3 7 11 15 input;
         input = QR_at 0 5 10 15 input;
         input = QR_at 1 6 11 12 input;
         input = QR_at 2 7 8 13 input;
         input = QR_at 3 4 9 14 input
     in input)"

text \<open>The loop itself, counting the iterations left.\<close>

fun round_loop :: "nat \<Rightarrow> u32 list \<Rightarrow> u32 list" where
  "round_loop 0 input = input"
| "round_loop (Suc n) input = round_loop n (round_body input)"

definition refill_keystream :: "ChaCha20 \<Rightarrow> ChaCha20" where
  "refill_keystream c =
    (let input = state c;
         input = round_loop 10 input;
         ks = map (\<lambda>i. input ! i + state c ! i) [0..<16];
         bc = block_counter c + 1;
         st = (state c)[12 := ucast bc];
         st = st[13 := ucast (drop_bit 32 bc)]
     in c\<lparr> keystream := ks, block_counter := bc, state := st, keystream_pos := 0 \<rparr>)"

text \<open>\<open>reinterpret_cast<const uint8_t*>(keystream)\<close>: the 64 bytes of the keystream array.\<close>

definition keystream_bytes :: "ChaCha20 \<Rightarrow> u8 list" where
  "keystream_bytes c = concat (map (le_bytes 4) (keystream c))"

text \<open>
  \<open>xor_stream(out, in, len)\<close>: the argument is the list of the \<open>len\<close> input bytes, the
  result the output bytes and the cipher afterwards.
\<close>

function xor_stream :: "ChaCha20 \<Rightarrow> u8 list \<Rightarrow> u8 list \<times> ChaCha20" where
  "xor_stream c inp =
    (if 0 < length inp then
       let c = (if 64 \<le> keystream_pos c then refill_keystream c else c);
           tk = min (length inp) (64 - keystream_pos c);
           ks = drop (keystream_pos c) (keystream_bytes c);
           out = map (\<lambda>i. inp ! i XOR ks ! i) [0..<tk];
           c = c\<lparr> keystream_pos := keystream_pos c + tk \<rparr>;
           (rest, c) = xor_stream c (drop tk inp)
       in (out @ rest, c)
     else ([], c))"
  by pat_completeness auto
termination
  by (relation "measure (\<lambda>(c, inp). length inp)")
     (auto simp: refill_keystream_def Let_def)

declare xor_stream.simps [simp del]

text \<open>\<open>crypt(data, len)\<close> works in place: \<open>xor_stream(data, data, len)\<close>.\<close>

definition crypt :: "ChaCha20 \<Rightarrow> u8 list \<Rightarrow> u8 list \<times> ChaCha20" where
  "crypt c data = xor_stream c data"

text \<open>The 64 bytes of an array of eight 64-bit words, and back.\<close>

definition block_bytes :: "u64 list \<Rightarrow> u8 list" where
  "block_bytes block = concat (map (le_bytes 8) block)"

definition bytes_block :: "u8 list \<Rightarrow> u64 list" where
  "bytes_block bs = map (src64 bs) [0..<8]"

definition encrypt_block :: "ChaCha20 \<Rightarrow> u64 list \<Rightarrow> u64 list \<times> ChaCha20" where
  "encrypt_block c block =
    (let result = block;
         (bytes, c) = crypt c (take 64 (block_bytes result))
     in (bytes_block bytes, c))"

section \<open>jsHash: secure finalization and the one-line interface\<close>

text \<open>
  \<open>hash_secure<N>\<close>; \<open>N\<close> is a template argument and \<open>N \<le> 8\<close> is a \<open>static_assert\<close>.
  The cipher is a local object, so only the digest and the hash object are returned.
\<close>

definition secure_block :: "jsHash \<Rightarrow> u64 list" where
  "secure_block h =
    [v h ! 0, v h ! 1, v h ! 2, v h ! 3, nbytes h, drop_bit 32 (nbytes h),
     0x517cc1b727220a94, 0x853a83b0eba87773]"

definition hash_secure_call ::
  "nat \<Rightarrow> ChaChaKey \<Rightarrow> ChaChaNonce \<Rightarrow> jsHash \<Rightarrow> u64 list \<times> jsHash" where
  "hash_secure_call N key nonce this =
    (let h = jsHash_copy this;
         h = flush_tail h;
         block = secure_block h;
         encryptor = ChaCha20_new key nonce 1;
         (ciphertext, encryptor) = encrypt_block encryptor block;
         result = replicate N 0;
         result = memcpy result 0 (take N ciphertext)
     in (result, this))"

definition hash_secure :: "nat \<Rightarrow> ChaChaKey \<Rightarrow> ChaChaNonce \<Rightarrow> jsHash \<Rightarrow> u64 list" where
  "hash_secure N key nonce h = fst (hash_secure_call N key nonce h)"

definition Hash64 :: "u8 list \<Rightarrow> u64 \<Rightarrow> fatal + u64" where
  "Hash64 p seed =
    (let h = jsHash_new seed
     in case insert_bytes h p of
          Inl e \<Rightarrow> Inl e
        | Inr h \<Rightarrow> Inr (fst (hash64_call h)))"

definition SecureHash ::
  "nat \<Rightarrow> u8 list \<Rightarrow> ChaChaKey \<Rightarrow> u64 \<Rightarrow> ChaChaNonce \<Rightarrow> fatal + u64 list" where
  "SecureHash N data key seed nonce =
    (let h = jsHash_new seed
     in case insert_bytes h data of
          Inl e \<Rightarrow> Inl e
        | Inr h \<Rightarrow> Inr (fst (hash_secure_call N key nonce h)))"

section \<open>The operations as the specification describes them\<close>

text \<open>
  The definitions of this section follow the words of the specification, not the code;
  the theorems below compare them with the code's.
\<close>

subsection \<open>Absorption\<close>

text \<open>
  The states of the public interface: four lanes, a 32-byte buffer, fewer than 32 bytes
  buffered. The buffered tail is the filled part of the buffer; what lies behind it is
  left over from earlier calls and never read.
\<close>

definition wf_hash :: "jsHash \<Rightarrow> bool" where
  "wf_hash h = (length (v h) = 4 \<and> length (buffer h) = 32 \<and> buffer_index h < 32)"

definition pending :: "jsHash \<Rightarrow> u8 list" where
  "pending h = take (buffer_index h) (buffer h)"

text \<open>
  Block absorption: the 32 bytes are four 8-byte words, word \<open>i\<close> is folded into lane \<open>i\<close>.
\<close>

definition absorb_block :: "u64 list \<Rightarrow> u8 list \<Rightarrow> u64 list" where
  "absorb_block lanes blk =
    [mix (lanes ! 0) (le_word (take 8 blk)),
     mix (lanes ! 1) (le_word (take 8 (drop 8 blk))),
     mix (lanes ! 2) (le_word (take 8 (drop 16 blk))),
     mix (lanes ! 3) (le_word (take 8 (drop 24 blk)))]"

text \<open>
  Absorbing a byte sequence: every complete 32-byte block in order; the result is the
  lanes and the 0 to 31 bytes left over.
\<close>

function absorb :: "u64 list \<Rightarrow> u8 list \<Rightarrow> u64 list \<times> u8 list" where
  "absorb lanes bs =
    (if 32 \<le> length bs then absorb (absorb_block lanes (take 32 bs)) (drop 32 bs)
     else (lanes, bs))"
  by pat_completeness auto
termination
  by (relation "measure (\<lambda>(lanes, bs). length bs)") auto

declare absorb.simps [simp del]

subsection \<open>Finalization\<close>

text \<open>Step 1: a non-empty tail is padded with zeros to 32 bytes and absorbed as a block.\<close>

definition padded_lanes :: "jsHash \<Rightarrow> u64 list" where
  "padded_lanes h =
    (if pending h = [] then v h
     else absorb_block (v h) (pending h @ replicate (32 - length (pending h)) 0))"

definition low32 :: "u64 \<Rightarrow> u64" where
  "low32 n = take_bit 32 n"

definition high32 :: "u64 \<Rightarrow> u64" where
  "high32 n = drop_bit 32 n"

text \<open>
  Steps 3 to 6 on the lanes, with the two words injected for the length as parameters:
  length injection, seasoning, and the four cross-mixing steps on the pairs \<open>(a, b)\<close>,
  \<open>(c, d)\<close>, \<open>(a, d)\<close>, \<open>(b, c)\<close> with the rotations 11, 23, 31, 43.
\<close>

definition finish :: "u64 list \<Rightarrow> u64 \<Rightarrow> u64 \<Rightarrow> u64 list" where
  "finish lanes len_a len_b =
    (let a0 = mix (lanes ! 0) len_a;
         b0 = mix (lanes ! 1) len_b;
         c0 = mix (lanes ! 2) PHI;
         d0 = mix (lanes ! 3) PHI2;
         t1 = mix a0 b0; a1 = a0 XOR t1; b1 = b0 XOR rotl t1 11;
         t2 = mix c0 d0; c1 = c0 XOR t2; d1 = d0 XOR rotl t2 23;
         t3 = mix a1 d1; a2 = a1 XOR t3; d2 = d1 XOR rotl t3 31;
         t4 = mix b1 c1; b2 = b1 XOR t4; c2 = c1 XOR rotl t4 43
     in [a2, b2, c2, d2])"

text \<open>The standard digest with the length injected as the claim words it.\<close>

definition digest256 :: "jsHash \<Rightarrow> u64 list" where
  "digest256 h = finish (padded_lanes h) (low32 (nbytes h)) (high32 (nbytes h))"

text \<open>
  The secure digest as the claim words it: the block is the four lanes, the low and the
  high 32 bits of the byte count, and the two salts; the result is the first \<open>N\<close> words of
  the block encrypted by a fresh cipher.
\<close>

definition secure_words :: "u64 list \<Rightarrow> u64 \<Rightarrow> u64 \<Rightarrow> u64 list" where
  "secure_words lanes w4 w5 =
    [lanes ! 0, lanes ! 1, lanes ! 2, lanes ! 3, w4, w5,
     0x517cc1b727220a94, 0x853a83b0eba87773]"

definition digest_secure :: "nat \<Rightarrow> ChaChaKey \<Rightarrow> ChaChaNonce \<Rightarrow> jsHash \<Rightarrow> u64 list" where
  "digest_secure N key nonce h =
    take N (fst (encrypt_block (ChaCha20_new key nonce 1)
      (secure_words (padded_lanes h) (low32 (nbytes h)) (high32 (nbytes h)))))"

subsection \<open>A four-gigabyte input\<close>

text \<open>
  The 32-byte block whose four words are the constant \<open>MIX\<close>, and the input made of
  \<open>2 ^ 27\<close> such blocks: \<open>2 ^ 32\<close> bytes.
\<close>

definition mix_block :: "u8 list" where
  "mix_block = concat (replicate 4 [0xb9, 0xe5, 0xe4, 0x1c, 0x6d, 0x47, 0x58, 0xbf])"

definition four_gigabytes :: "u8 list" where
  "four_gigabytes = concat (replicate (2 ^ 27) mix_block)"

text \<open>The hash object \<open>jsHash(42)\<close> after this input was inserted in one call.\<close>

definition big_state :: jsHash where
  "big_state = projr (insert_bytes (jsHash_new 42) four_gigabytes)"

subsection \<open>The two halves of \<open>insert\<close>\<close>

text \<open>
  The proofs about \<open>insert\<close> treat its body in two parts: the topping up of a buffer that
  is not empty, and the fast path followed by the storing of the tail.
\<close>

definition top_up :: "jsHash \<Rightarrow> u8 list \<Rightarrow> jsHash" where
  "top_up h x =
    (let needed = 32 - buffer_index h;
         tk = min needed (length x);
         h = h\<lparr> buffer := memcpy (buffer h) (buffer_index h) (take tk x) \<rparr>;
         h = h\<lparr> buffer_index := buffer_index h + tk \<rparr>;
         h = (if buffer_index h = 32 then process_buffer h else h)
     in h)"

definition tail_part :: "jsHash \<Rightarrow> u8 list \<Rightarrow> jsHash" where
  "tail_part h1 ptr1 =
    (let (h, ptr) = fast_path h1 ptr1
     in if 0 < length ptr
        then h\<lparr> buffer := memcpy (buffer h) 0 ptr, buffer_index := length ptr \<rparr>
        else h)"

subsection \<open>The keystream block\<close>

text \<open>
  The quarter round: \<open>a += b; d ^= a; d <<<= 16; c += d; b ^= c; b <<<= 12; a += b; d ^= a;
  d <<<= 8; c += d; b ^= c; b <<<= 7\<close>, additions modulo \<open>2 ^ 32\<close>.
\<close>

definition quarter_round :: "u32 \<times> u32 \<times> u32 \<times> u32 \<Rightarrow> u32 \<times> u32 \<times> u32 \<times> u32" where
  "quarter_round q =
    (case q of (a, b, c, d) \<Rightarrow>
      let a1 = a + b; d1 = word_rotl 16 (d XOR a1);
          c1 = c + d1; b1 = word_rotl 12 (b XOR c1);
          a2 = a1 + b1; d2 = word_rotl 8 (d1 XOR a2);
          c2 = c1 + d2; b2 = word_rotl 7 (b1 XOR c2)
      in (a2, b2, c2, d2))"

definition column_groups :: "(nat \<times> nat \<times> nat \<times> nat) list" where
  "column_groups = [(0, 4, 8, 12), (1, 5, 9, 13), (2, 6, 10, 14), (3, 7, 11, 15)]"

definition diagonal_groups :: "(nat \<times> nat \<times> nat \<times> nat) list" where
  "diagonal_groups = [(0, 5, 10, 15), (1, 6, 11, 12), (2, 7, 8, 13), (3, 4, 9, 14)]"

text \<open>A quarter round on the words of one index group of the 16-word state.\<close>

definition quarter_on :: "u32 list \<Rightarrow> nat \<times> nat \<times> nat \<times> nat \<Rightarrow> u32 list" where
  "quarter_on s g =
    (case g of (i, j, k, l) \<Rightarrow>
      case quarter_round (s ! i, s ! j, s ! k, s ! l) of
        (a, b, c, d) \<Rightarrow> s[i := a, j := b, k := c, l := d])"

text \<open>One iteration: the four column quarter rounds, then the four diagonal ones.\<close>

definition double_round :: "u32 list \<Rightarrow> u32 list" where
  "double_round s = foldl quarter_on (foldl quarter_on s column_groups) diagonal_groups"

text \<open>
  Ten iterations on a scratch copy, then the pre-round state added word by word.
\<close>

definition keystream_block :: "u32 list \<Rightarrow> u32 list" where
  "keystream_block st = map2 (+) ((double_round ^^ 10) st) st"

text \<open>
  \<open>generate_block\<close>: the block, the counter incremented by one, its low and high halves
  written to the state words 12 and 13, the cursor reset.
\<close>

definition generate_block :: "ChaCha20 \<Rightarrow> ChaCha20" where
  "generate_block c =
    \<lparr> state = (state c)[12 := ucast (low32 (block_counter c + 1)),
                         13 := ucast (high32 (block_counter c + 1))],
      keystream = keystream_block (state c),
      keystream_pos = 0,
      block_counter = block_counter c + 1 \<rparr>"

section \<open>The portable 64 x 64 -> 128 multiplication\<close>

text \<open>Reading the 32-bit halves and the recombination as natural numbers.\<close>

lemma unat_LO: "unat (LO x) = unat x mod 2 ^ 32"
proof -
  have m: "(0xFFFFFFFF :: u64) = mask 32"
    by (simp add: mask_eq_exp_minus_1)
  have "LO x = take_bit 32 x"
    unfolding LO_def m by (rule take_bit_eq_mask [symmetric])
  moreover have "unat (take_bit 32 x) = take_bit 32 (unat x)"
    by (rule unsigned_take_bit_eq)
  ultimately show ?thesis
    by (simp only: take_bit_eq_mod)
qed

lemma unat_HI: "unat (HI x) = unat x div 2 ^ 32"
proof -
  have "unat (drop_bit 32 x) = drop_bit 32 (unat x)"
    by (rule unat_drop_bit_eq)
  then show ?thesis
    unfolding HI_def by (simp only: drop_bit_eq_div)
qed

lemma unat_push32:
  fixes x :: u64
  shows "unat (push_bit 32 x) = (unat x mod 2 ^ 32) * 2 ^ 32"
proof -
  have "unat (push_bit 32 x) = take_bit LENGTH(64) (push_bit 32 (unat x))"
    by (rule unsigned_push_bit_eq)
  also have "\<dots> = push_bit 32 (take_bit (LENGTH(64) - 32) (unat x))"
    by (rule take_bit_push_bit)
  also have "\<dots> = push_bit 32 (take_bit 32 (unat x))"
    by simp
  finally show ?thesis
    by (simp only: push_bit_eq_mult take_bit_eq_mod)
qed

lemma unat_lo_or:
  fixes l x :: u64
  assumes "unat l < 2 ^ 32"
  shows "unat (l OR push_bit 32 x) = unat l + (unat x mod 2 ^ 32) * 2 ^ 32"
proof -
  have l: "l = take_bit 32 l"
    by (metis assms unsigned_take_bit_eq unsigned_word_eqI take_bit_nat_eq_self)
  have "take_bit 32 l AND push_bit 32 x = 0"
    by (rule bit_eqI) (auto simp: bit_simps)
  then have "l AND push_bit 32 x = 0"
    using l by simp
  then have "l + push_bit 32 x = l OR push_bit 32 x"
    by (rule disjunctive_add_eq_or)
  moreover have "unat l + unat (push_bit 32 x) < 2 ^ 64"
  proof -
    have "unat x mod 2 ^ 32 * 2 ^ 32 \<le> (2 ^ 32 - 1) * 2 ^ 32"
      by (intro mult_right_mono) simp_all
    then show ?thesis using assms by (simp add: unat_push32)
  qed
  ultimately show ?thesis
    using unat_add_lem [of l "push_bit 32 x"] by (simp add: unat_push32)
qed

lemma partial_products_core:
  fixes M :: nat
  assumes "q00 + r01 + r10 = rx + qx * M"
  shows "(r00 + q00 * M) + ((r01 + q01 * M) + (r10 + q10 * M)) * M + (r11 + q11 * M) * (M * M)
       = (r00 + rx * M) + (q01 + q10 + r11 + qx + q11 * M) * (M * M)"
proof -
  have "(q00 + r01 + r10) * M = (rx + qx * M) * M"
    using assms by simp
  then have "q00 * M + r01 * M + r10 * M = rx * M + qx * (M * M)"
    by (simp add: algebra_simps)
  then show ?thesis
    by (simp add: algebra_simps)
qed

lemma partial_products_nat:
  fixes M al ah bl bh :: nat
  assumes M: "0 < M"
  defines "x \<equiv> (al * bl) div M + (al * bh) mod M + (ah * bl) mod M"
  defines "y \<equiv> (al * bh) div M + (ah * bl) div M + (ah * bh) mod M + x div M"
  shows "(al + ah * M) * (bl + bh * M)
       = ((al * bl) mod M + (x mod M) * M) + (y + ((ah * bh) div M) * M) * (M * M)"
    and "(al * bl) mod M + (x mod M) * M < M * M"
proof -
  have "(al + ah * M) * (bl + bh * M)
      = al * bl + (al * bh + ah * bl) * M + (ah * bh) * (M * M)"
    by (simp add: algebra_simps)
  also have "\<dots> = ((al * bl) mod M + (al * bl) div M * M)
       + (((al * bh) mod M + (al * bh) div M * M) + ((ah * bl) mod M + (ah * bl) div M * M)) * M
       + ((ah * bh) mod M + (ah * bh) div M * M) * (M * M)"
    by (simp only: mod_div_mult_eq)
  also have "\<dots> = ((al * bl) mod M + (x mod M) * M)
       + ((al * bh) div M + (ah * bl) div M + (ah * bh) mod M + x div M + (ah * bh) div M * M) * (M * M)"
    by (rule partial_products_core) (simp add: x_def)
  finally show "(al + ah * M) * (bl + bh * M)
       = ((al * bl) mod M + (x mod M) * M) + (y + ((ah * bh) div M) * M) * (M * M)"
    by (simp only: y_def)
  have "(al * bl) mod M < M" "x mod M < M"
    using M by simp_all
  then have a: "(al * bl) mod M + (x mod M) * M < Suc (x mod M) * M" and b: "Suc (x mod M) \<le> M"
    by simp_all
  from b have "Suc (x mod M) * M \<le> M * M"
    by (rule mult_le_mono1)
  with a show "(al * bl) mod M + (x mod M) * M < M * M"
    by (rule less_le_trans)
qed

lemma unat_lt64: "unat (x :: u64) < 2 ^ 64"
  using unsigned_less [of x, where ?'a = nat] by simp

lemma unat_mul_lt32:
  fixes x y :: u64
  assumes "unat x < 2 ^ 32" "unat y < 2 ^ 32"
  shows "unat (x * y) = unat x * unat y"
proof -
  have "unat x * unat y < 2 ^ 32 * 2 ^ 32"
    using assms by (intro mult_strict_mono) simp_all
  then have "unat x * unat y < 2 ^ LENGTH(64)"
    by simp
  then show ?thesis by (simp only: unat_mult_lem)
qed

lemma unat_add_lt64:
  fixes x y :: u64
  assumes "unat x + unat y < 2 ^ 64"
  shows "unat (x + y) = unat x + unat y"
proof -
  have "unat x + unat y < 2 ^ LENGTH(64)" using assms by simp
  then show ?thesis by (simp only: unat_add_lem)
qed

lemma unat_LO_lt: "unat (LO x) < 2 ^ 32"
  by (simp only: unat_LO) simp

lemma unat_HI_lt: "unat (HI x) < 2 ^ 32"
proof -
  have "unat x < 2 ^ 32 * 2 ^ 32" using unat_lt64 [of x] by simp
  then have "unat x div 2 ^ 32 < 2 ^ 32"
    by (simp only: less_mult_imp_div_less)
  then show ?thesis by (simp only: unat_HI)
qed

lemma mul64_portable_unat:
  "unat (lo (mul64_portable a b)) = (unat a * unat b) mod 2 ^ 64"
  "unat (hi (mul64_portable a b)) = (unat a * unat b) div 2 ^ 64"
proof -
  define M :: nat where "M = 2 ^ 32"
  have M0: "0 < M" and MM: "M * M = 2 ^ 64" and M3: "M + M + M + M < 2 ^ 64"
    by (simp_all add: M_def)
  define al ah bl bh where "al = unat a mod M" and "ah = unat a div M"
    and "bl = unat b mod M" and "bh = unat b div M"
  define p00 p01 p10 p11 where "p00 = LO a * LO b" and "p01 = LO a * HI b"
    and "p10 = HI a * LO b" and "p11 = HI a * HI b"
  define x where "x = HI p00 + LO p01 + LO p10"
  define y where "y = HI p01 + HI p10 + LO p11 + HI x"
  define X where "X = (al * bl) div M + (al * bh) mod M + (ah * bl) mod M"
  define Y where "Y = (al * bh) div M + (ah * bl) div M + (ah * bh) mod M + X div M"
  have LOu: "\<And>w. unat (LO w) = unat w mod M" and HIu: "\<And>w. unat (HI w) = unat w div M"
    and LOlt: "\<And>w. unat (LO w) < M" and HIlt: "\<And>w. unat (HI w) < M"
    unfolding M_def by (rule unat_LO unat_HI unat_LO_lt unat_HI_lt)+
  have mul: "\<And>u v :: u64. unat u < M \<Longrightarrow> unat v < M \<Longrightarrow> unat (u * v) = unat u * unat v"
    unfolding M_def by (rule unat_mul_lt32)
  have u00: "unat p00 = al * bl" and u01: "unat p01 = al * bh"
    and u10: "unat p10 = ah * bl" and u11: "unat p11 = ah * bh"
    unfolding p00_def p01_def p10_def p11_def al_def ah_def bl_def bh_def
    using mul [OF LOlt LOlt, of a b] mul [OF LOlt HIlt, of a b]
      mul [OF HIlt LOlt, of a b] mul [OF HIlt HIlt, of a b]
    by (simp_all only: LOu HIu)
  have ux: "unat x = X"
  proof -
    have "unat (HI p00) + unat (LO p01) < 2 ^ 64"
      using HIlt [of p00] LOlt [of p01] M3 by linarith
    then have 1: "unat (HI p00 + LO p01) = unat (HI p00) + unat (LO p01)"
      by (rule unat_add_lt64)
    have "unat (HI p00 + LO p01) + unat (LO p10) < 2 ^ 64"
      using HIlt [of p00] LOlt [of p01] LOlt [of p10] M3 unfolding 1 by linarith
    then have "unat x = unat (HI p00) + unat (LO p01) + unat (LO p10)"
      unfolding x_def using 1 by (simp only: unat_add_lt64)
    then show ?thesis
      by (simp only: X_def HIu LOu u00 u01 u10)
  qed
  have uy: "unat y = Y"
  proof -
    have "unat (HI p01) + unat (HI p10) < 2 ^ 64"
      using HIlt [of p01] HIlt [of p10] M3 by linarith
    then have 1: "unat (HI p01 + HI p10) = unat (HI p01) + unat (HI p10)"
      by (rule unat_add_lt64)
    have "unat (HI p01 + HI p10) + unat (LO p11) < 2 ^ 64"
      using HIlt [of p01] HIlt [of p10] LOlt [of p11] M3 unfolding 1 by linarith
    then have 2: "unat (HI p01 + HI p10 + LO p11) = unat (HI p01) + unat (HI p10) + unat (LO p11)"
      using 1 by (simp only: unat_add_lt64)
    have "unat (HI p01 + HI p10 + LO p11) + unat (HI x) < 2 ^ 64"
      using HIlt [of p01] HIlt [of p10] LOlt [of p11] HIlt [of x] M3 unfolding 2 by linarith
    then have "unat y = unat (HI p01) + unat (HI p10) + unat (LO p11) + unat (HI x)"
      unfolding y_def using 2 by (simp only: unat_add_lt64)
    then show ?thesis
      by (simp only: Y_def HIu LOu u01 u10 u11 ux)
  qed
  have prod: "unat a * unat b
      = ((al * bl) mod M + (X mod M) * M) + (Y + ((ah * bh) div M) * M) * (M * M)"
    and low: "(al * bl) mod M + (X mod M) * M < M * M"
  proof -
    have "unat a = al + ah * M" "unat b = bl + bh * M"
      by (simp_all add: al_def ah_def bl_def bh_def)
    then show "unat a * unat b
      = ((al * bl) mod M + (X mod M) * M) + (Y + ((ah * bh) div M) * M) * (M * M)"
      using partial_products_nat(1) [OF M0, of al ah bl bh] by (simp only: X_def Y_def)
    show "(al * bl) mod M + (X mod M) * M < M * M"
      using partial_products_nat(2) [OF M0, of al bl bh ah] by (simp only: X_def)
  qed
  have lo_nat: "(unat a * unat b) mod (M * M) = (al * bl) mod M + (X mod M) * M"
    unfolding prod using low by simp
  have hi_nat: "(unat a * unat b) div (M * M) = Y + ((ah * bh) div M) * M"
    unfolding prod using low M0 by simp
  have lo_w: "lo (mul64_portable a b) = LO p00 OR push_bit 32 x"
    and hi_w: "hi (mul64_portable a b) = y + push_bit 32 (HI p11)"
    by (simp_all add: mul64_portable_def Let_def p00_def p01_def p10_def p11_def x_def y_def)
  have "unat (LO p00 OR push_bit 32 x) = unat (LO p00) + (unat x mod 2 ^ 32) * 2 ^ 32"
    by (rule unat_lo_or) (rule unat_LO_lt)
  then have "unat (lo (mul64_portable a b)) = (al * bl) mod M + (X mod M) * M"
    by (simp only: lo_w LOu u00 ux M_def)
  then show "unat (lo (mul64_portable a b)) = (unat a * unat b) mod 2 ^ 64"
    by (simp only: lo_nat [symmetric] MM)
  have hp: "unat (push_bit 32 (HI p11)) = ((ah * bh) div M) * M"
  proof -
    have "unat (HI p11) mod M = unat (HI p11)"
      using HIlt [of p11] by simp
    then show ?thesis
      using unat_push32 [of "HI p11"] by (simp only: HIu u11 M_def)
  qed
  have "unat a * unat b < 2 ^ 64 * 2 ^ 64"
    using unat_lt64 [of a] unat_lt64 [of b] by (intro mult_strict_mono) simp_all
  then have "(unat a * unat b) div (M * M) < 2 ^ 64"
    by (simp only: MM less_mult_imp_div_less)
  then have "unat y + unat (push_bit 32 (HI p11)) < 2 ^ 64"
    by (simp only: hi_nat uy hp)
  then have "unat (y + push_bit 32 (HI p11)) = unat y + unat (push_bit 32 (HI p11))"
    by (rule unat_add_lt64)
  then show "unat (hi (mul64_portable a b)) = (unat a * unat b) div 2 ^ 64"
    by (simp only: hi_w uy hp hi_nat [symmetric] MM)
qed

lemma unat_widen: "unat (ucast (a :: u64) :: u128w) = unat a"
proof -
  have "unat (ucast a :: u128w) = take_bit LENGTH(128) (unat a)"
    by (rule unsigned_ucast_eq)
  moreover have "unat a < 2 ^ LENGTH(128)"
    using unat_lt64 [of a] by (rule less_trans) simp
  ultimately show ?thesis
    by (simp only: take_bit_nat_eq_self)
qed

lemma unat_wide_mul: "unat ((ucast (a :: u64) :: u128w) * ucast (b :: u64)) = unat a * unat b"
proof -
  have "unat a * unat b < 2 ^ 64 * 2 ^ 64"
    using unat_lt64 [of a] unat_lt64 [of b] by (intro mult_strict_mono) simp_all
  then have "unat (ucast a :: u128w) * unat (ucast b :: u128w) < 2 ^ LENGTH(128)"
    by (simp add: unat_widen)
  then have "unat ((ucast a :: u128w) * ucast b) = unat (ucast a :: u128w) * unat (ucast b :: u128w)"
    by (simp only: unat_mult_lem)
  then show ?thesis by (simp only: unat_widen)
qed

lemma wide_lo: "(ucast ((ucast (a :: u64) :: u128w) * ucast (b :: u64)) :: u64) = lo (mul64_portable a b)"
proof -
  have "unat (ucast ((ucast a :: u128w) * ucast b) :: u64)
      = take_bit LENGTH(64) (unat ((ucast a :: u128w) * ucast b))"
    by (rule unsigned_ucast_eq)
  also have "\<dots> = (unat a * unat b) mod 2 ^ 64"
    by (simp only: unat_wide_mul take_bit_eq_mod) simp
  finally show ?thesis
    by (simp only: word_unat_eq_iff mul64_portable_unat)
qed

lemma wide_hi: "(ucast (drop_bit 64 ((ucast (a :: u64) :: u128w) * ucast (b :: u64))) :: u64) = hi (mul64_portable a b)"
proof -
  have "unat (ucast (drop_bit 64 ((ucast a :: u128w) * ucast b)) :: u64)
      = take_bit LENGTH(64) (unat (drop_bit 64 ((ucast a :: u128w) * ucast b)))"
    by (rule unsigned_ucast_eq)
  also have "\<dots> = take_bit LENGTH(64) (drop_bit 64 (unat ((ucast a :: u128w) * ucast b)))"
    by (simp only: unat_drop_bit_eq)
  also have "\<dots> = take_bit LENGTH(64) ((unat a * unat b) div 2 ^ 64)"
    by (simp only: unat_wide_mul drop_bit_eq_div)
  also have "\<dots> = take_bit LENGTH(64) (unat (hi (mul64_portable a b)))"
    by (simp only: mul64_portable_unat)
  also have "\<dots> = unat (hi (mul64_portable a b))"
    using unat_lt64 [of "hi (mul64_portable a b)"] by (intro take_bit_nat_eq_self) simp
  finally show ?thesis
    by (simp only: word_unat_eq_iff)
qed

text \<open>
  Claim C4. For all 64-bit \<open>a\<close> and \<open>b\<close>, \<open>mul64_portable a b\<close> holds exactly the low and
  the high 64 bits of the 128-bit product of \<open>a\<close> and \<open>b\<close>, and therefore \<open>mix\<close> computes
  the same word through the portable emulation as through the native wide multiplication.
\<close>

theorem mul64_portable_exact:
  "unat (lo (mul64_portable a b)) = (unat a * unat b) mod 2 ^ 64
   \<and> unat (hi (mul64_portable a b)) = (unat a * unat b) div 2 ^ 64
   \<and> mix_portable a b = mix a b"
  by (simp add: mul64_portable_unat mix_def mix_portable_def wide_lo wide_hi Let_def)

section \<open>The byte counter, the one-line helpers, finalization and the nonce\<close>

lemma nbytes_process_32bytes [simp]: "nbytes (process_32bytes h p) = nbytes h"
  by (simp add: process_32bytes_def Let_def)

lemma nbytes_process_buffer [simp]: "nbytes (process_buffer h) = nbytes h"
  by (simp add: process_buffer_def)

lemma nbytes_fast_path [simp]: "nbytes (fst (fast_path h ptr)) = nbytes h"
proof (induction h ptr rule: fast_path.induct)
  case (1 h ptr)
  then show ?case
    by (subst fast_path.simps) simp
qed

text \<open>The state on which \<open>insert\<close> performs its final counter update.\<close>

lemma insert_bytes_final_update:
  assumes "x \<noteq> []"
  obtains h1 where "nbytes h1 = nbytes h"
    and "insert_bytes h x =
      (if nbytes h1 + of_nat (length x) < of_nat (length x) then Inl CounterOverflow
       else Inr (h1\<lparr> nbytes := nbytes h1 + of_nat (length x) \<rparr>))"
proof -
  define h0 ptr0 where "h0 = (if 0 < buffer_index h then
                let needed = 32 - buffer_index h;
                    tk = min needed (length x);
                    h = h\<lparr> buffer := memcpy (buffer h) (buffer_index h) (take tk x) \<rparr>;
                    h = h\<lparr> buffer_index := buffer_index h + tk \<rparr>;
                    h = (if buffer_index h = 32 then process_buffer h else h)
                in h else h)"
    and "ptr0 = (if 0 < buffer_index h then drop (min (32 - buffer_index h) (length x)) x else x)"
  define h1 where "h1 = (let (h, ptr) = fast_path h0 ptr0 in
           (if 0 < length ptr
                then h\<lparr> buffer := memcpy (buffer h) 0 ptr, buffer_index := length ptr \<rparr>
                else h))"
  have "nbytes h0 = nbytes h"
    by (simp add: h0_def Let_def)
  then have 1: "nbytes h1 = nbytes h"
    using nbytes_fast_path [of h0 ptr0] by (cases "fast_path h0 ptr0") (simp add: h1_def)
  have 2: "insert_bytes h x =
      (if nbytes h1 + of_nat (length x) < of_nat (length x) then Inl CounterOverflow
       else Inr (h1\<lparr> nbytes := nbytes h1 + of_nat (length x) \<rparr>))"
    using assms by (simp add: insert_bytes_def h1_def h0_def ptr0_def Let_def split: prod.splits)
  from 1 2 show ?thesis by (rule that)
qed

lemma u64_add_overflow_iff:
  fixes n s :: u64
  shows "n + s < s \<longleftrightarrow> 2 ^ 64 \<le> unat n + unat s"
proof -
  have n: "unat n < 2 ^ 64" and s: "unat s < 2 ^ 64"
    using unsigned_less [of n, where ?'a = nat] unsigned_less [of s, where ?'a = nat] by simp_all
  have "unat (n + s) = (unat n + unat s) mod 2 ^ 64"
    by (simp add: unat_word_ariths)
  moreover have "(unat n + unat s) mod 2 ^ 64 < unat s \<longleftrightarrow> 2 ^ 64 \<le> unat n + unat s"
  proof (cases "unat n + unat s < 2 ^ 64")
    case True
    then show ?thesis by simp
  next
    case False
    then have "(unat n + unat s) mod 2 ^ 64 = unat n + unat s - 2 ^ 64"
      using n s by (simp add: mod_if)
    then show ?thesis using False n by simp
  qed
  ultimately show ?thesis
    by (simp add: word_less_nat_alt)
qed

lemma insert_bytes_nbytes:
  assumes "length x < 2 ^ 64"
  shows "insert_bytes h [] = Inr h
    \<and> (unat (nbytes h) + length x < 2 ^ 64 \<longrightarrow>
         (\<exists>h'. insert_bytes h x = Inr h' \<and> unat (nbytes h') = unat (nbytes h) + length x
               \<and> nbytes h \<le> nbytes h'))
    \<and> (2 ^ 64 \<le> unat (nbytes h) + length x \<longrightarrow> insert_bytes h x = Inl CounterOverflow)"
proof (cases "x = []")
  case True
  then show ?thesis
    using unsigned_less [of "nbytes h", where ?'a = nat] by (simp add: insert_bytes_def)
next
  case False
  have len: "unat (of_nat (length x) :: u64) = length x"
    using assms by (simp add: unat_of_nat)
  obtain h1 where h1: "nbytes h1 = nbytes h"
    and ins: "insert_bytes h x =
      (if nbytes h1 + of_nat (length x) < of_nat (length x) then Inl CounterOverflow
       else Inr (h1\<lparr> nbytes := nbytes h1 + of_nat (length x) \<rparr>))"
    using insert_bytes_final_update [OF False] by blast
  have ov: "nbytes h + of_nat (length x) < (of_nat (length x) :: u64)
      \<longleftrightarrow> 2 ^ 64 \<le> unat (nbytes h) + length x"
    by (simp only: u64_add_overflow_iff len)
  have sum: "unat (nbytes h) + length x < 2 ^ 64 \<Longrightarrow>
      unat (nbytes h + of_nat (length x)) = unat (nbytes h) + length x"
    using len by (simp add: unat_word_ariths)
  have "insert_bytes h [] = Inr h"
    by (simp add: insert_bytes_def)
  then show ?thesis
    using ov sum by (auto simp: ins h1 word_le_nat_alt)
qed


text \<open>
  Claim C9. A call of \<open>insert\<close> with a zero length (also with a null pointer) returns at
  once; a call that returns has increased the byte counter by exactly the length passed, and
  the counter has not decreased; the call ends in the fatal exit exactly when the sum leaves
  the 64-bit range, and otherwise it returns.
\<close>

theorem insert_bytes_counter:
  assumes "length x < 2 ^ 64"
  shows "insert_bytes h [] = Inr h
    \<and> (unat (nbytes h) + length x < 2 ^ 64 \<longrightarrow>
         (\<exists>h'. insert_bytes h x = Inr h' \<and> unat (nbytes h') = unat (nbytes h) + length x
               \<and> nbytes h \<le> nbytes h'))
    \<and> (2 ^ 64 \<le> unat (nbytes h) + length x \<longrightarrow> insert_bytes h x = Inl CounterOverflow)"
  using assms by (rule insert_bytes_nbytes)

lemma nbytes_jsHash_new [simp]: "nbytes (jsHash_new seed) = 0"
  by (simp add: jsHash_new_def Let_def split_def)

theorem insert_bytes_counter_witness:
  "length [1, 2, 3 :: u8] < 2 ^ 64
   \<and> insert_bytes (jsHash_new 42) [] = Inr (jsHash_new 42)
   \<and> (\<exists>h'. insert_bytes (jsHash_new 42) [1, 2, 3] = Inr h'
         \<and> unat (nbytes h') = unat (nbytes (jsHash_new 42)) + length [1, 2, 3 :: u8]
         \<and> nbytes (jsHash_new 42) \<le> nbytes h')
   \<and> insert_bytes ((jsHash_new 42)\<lparr> nbytes := 0xFFFFFFFFFFFFFFFF \<rparr>) [1, 2, 3]
       = Inl CounterOverflow"
proof -
  have len: "length [1, 2, 3 :: u8] < 2 ^ 64"
    by simp
  have small: "unat (nbytes (jsHash_new 42)) + length [1, 2, 3 :: u8] < 2 ^ 64"
    by simp
  have big: "2 ^ 64 \<le> unat (nbytes ((jsHash_new 42)\<lparr> nbytes := 0xFFFFFFFFFFFFFFFF \<rparr>))
      + length [1, 2, 3 :: u8]"
    by simp
  show ?thesis
    using insert_bytes_counter [OF len, of "jsHash_new 42"]
      insert_bytes_counter [OF len, of "(jsHash_new 42)\<lparr> nbytes := 0xFFFFFFFFFFFFFFFF \<rparr>"]
      len small big
    by blast
qed

text \<open>
  Claim C10. \<open>Hash64\<close> is: construct with the seed, insert once, call \<open>hash64\<close>;
  \<open>SecureHash<N>\<close> is: construct with the seed, insert once, call \<open>hash_secure<N>\<close> with
  the key and the nonce. For every length a \<open>size_t\<close> holds the insertion returns, so
  both helpers return these digests.
\<close>

theorem one_line_helpers:
  assumes "length p < 2 ^ 64"
  shows "\<exists>h. insert_bytes (jsHash_new seed) p = Inr h
      \<and> Hash64 p seed = Inr (hash64 h)
      \<and> SecureHash N p key seed nonce = Inr (hash_secure N key nonce h)"
proof -
  have "unat (nbytes (jsHash_new seed)) + length p < 2 ^ 64"
    using assms by simp
  then obtain h where "insert_bytes (jsHash_new seed) p = Inr h"
    using insert_bytes_nbytes [OF assms, of "jsHash_new seed"] by blast
  then show ?thesis
    by (simp add: Hash64_def SecureHash_def hash64_def hash_secure_def)
qed

theorem one_line_helpers_witness:
  "length [1, 2, 3 :: u8] < 2 ^ 64
   \<and> (\<exists>h. insert_bytes (jsHash_new 42) [1, 2, 3] = Inr h
      \<and> Hash64 [1, 2, 3] 42 = Inr (hash64 h)
      \<and> SecureHash 4 [1, 2, 3] (replicate 8 0) 42 [0, 0, 0]
          = Inr (hash_secure 4 (replicate 8 0) [0, 0, 0] h))"
proof -
  have len: "length [1, 2, 3 :: u8] < 2 ^ 64"
    by simp
  show ?thesis
    using one_line_helpers [OF len, of 42 4 "replicate 8 0" "[0, 0, 0]"] len
    by blast
qed

text \<open>
  Claim C7. Every finalizer returns the object it was called on unchanged (lanes, byte
  counter, buffer and fill level); a second call returns the same digest, and an insertion
  after a finalization behaves as one without it.
\<close>

theorem finalizers_keep_state:
  "snd (hash256_call h) = h \<and> snd (hash128_call h) = h \<and> snd (hash64_call h) = h
   \<and> snd (hash_secure_call N key nonce h) = h
   \<and> fst (hash256_call (snd (hash256_call h))) = fst (hash256_call h)
   \<and> fst (hash128_call (snd (hash128_call h))) = fst (hash128_call h)
   \<and> fst (hash64_call (snd (hash64_call h))) = fst (hash64_call h)
   \<and> fst (hash_secure_call N key nonce (snd (hash_secure_call N key nonce h)))
       = fst (hash_secure_call N key nonce h)
   \<and> insert_bytes (snd (hash256_call h)) x = insert_bytes h x
   \<and> insert_bytes (snd (hash128_call h)) x = insert_bytes h x
   \<and> insert_bytes (snd (hash64_call h)) x = insert_bytes h x
   \<and> insert_bytes (snd (hash_secure_call N key nonce h)) x = insert_bytes h x"
proof -
  have 1: "snd (hash256_call h) = h"
    by (simp add: hash256_call_def Let_def)
  have 2: "snd (hash128_call h) = h"
    using 1 by (simp add: hash128_call_def split_def Let_def)
  have 3: "snd (hash64_call h) = h"
    using 1 by (simp add: hash64_call_def split_def Let_def)
  have 4: "snd (hash_secure_call N key nonce h) = h"
    by (simp add: hash_secure_call_def Let_def split_def)
  show ?thesis
    by (simp only: 1 2 3 4)
qed

text \<open>
  Claim C8. Two nonces that agree in their first two words give the same cipher object,
  whatever their third words: the same keystream block, the same output of \<open>crypt\<close> and
  of \<open>encrypt_block\<close>, and the same \<open>hash_secure\<close> digest.
\<close>

theorem third_nonce_word_ignored:
  assumes "nonce1 ! 0 = nonce2 ! 0" and "nonce1 ! 1 = nonce2 ! 1"
  shows "ChaCha20_new key nonce1 ctr = ChaCha20_new key nonce2 ctr
    \<and> keystream (refill_keystream (ChaCha20_new key nonce1 ctr))
        = keystream (refill_keystream (ChaCha20_new key nonce2 ctr))
    \<and> crypt (ChaCha20_new key nonce1 ctr) data = crypt (ChaCha20_new key nonce2 ctr) data
    \<and> encrypt_block (ChaCha20_new key nonce1 ctr) blk
        = encrypt_block (ChaCha20_new key nonce2 ctr) blk
    \<and> hash_secure N key nonce1 h = hash_secure N key nonce2 h"
proof -
  have eq: "ChaCha20_new key nonce1 c = ChaCha20_new key nonce2 c" for c
    using assms by (simp add: ChaCha20_new_def)
  show ?thesis
    by (simp add: eq hash_secure_def hash_secure_call_def)
qed

theorem third_nonce_word_ignored_witness:
  "[1, 2, 3 :: u32] ! 0 = [1, 2, 4] ! 0 \<and> [1, 2, 3 :: u32] ! 1 = [1, 2, 4] ! 1
   \<and> ChaCha20_new (replicate 8 0) [1, 2, 3] 1 = ChaCha20_new (replicate 8 0) [1, 2, 4] 1
   \<and> hash_secure 4 (replicate 8 0) [1, 2, 3] (jsHash_new 42)
       = hash_secure 4 (replicate 8 0) [1, 2, 4] (jsHash_new 42)"
proof -
  have a: "[1, 2, 3 :: u32] ! 0 = [1, 2, 4] ! 0" and b: "[1, 2, 3 :: u32] ! 1 = [1, 2, 4] ! 1"
    by simp_all
  show ?thesis
    using third_nonce_word_ignored [OF a b, of "replicate 8 0" 1 "[]" "[]" 4 "jsHash_new 42"] a b
    by blast
qed

section \<open>ChaCha20: one keystream block\<close>

text \<open>The rotation of \<open>std::rotl\<close> as shifts, for 32-bit words.\<close>

lemma rotl32_shift:
  assumes "0 < r" "r < 32"
  shows "rotl32 x r = push_bit r x OR drop_bit (32 - r) x"
proof (rule bit_word_eqI)
  fix n assume n: "n < LENGTH(32)"
  have rot: "bit (rotl32 x r) n = bit x ((n + (32 - r)) mod 32)"
    unfolding rotl32_def word_rotl_eq_word_rotr
    using assms n by (simp add: bit_word_rotr_iff)
  show "bit (rotl32 x r) n = bit (push_bit r x OR drop_bit (32 - r) x) n"
  proof (cases "r \<le> n")
    case True
    then have "n + (32 - r) = (n - r) + 32"
      using assms by simp
    moreover have "((n - r) + 32) mod 32 = n - r"
      using n by (simp only: mod_add_self2) simp
    ultimately have "(n + (32 - r)) mod 32 = n - r"
      by (simp only:)
    moreover have "\<not> bit x (32 - r + n)"
      using True bit_imp_le_length [of x "32 - r + n"] by auto
    ultimately show ?thesis
      using True n by (simp add: rot bit_simps)
  next
    case False
    then have "(n + (32 - r)) mod 32 = n + (32 - r)"
      using assms by simp
    then show ?thesis
      using False n by (simp add: rot bit_simps add.commute)
  qed
qed

lemma rotl32_add:
  assumes "0 < r" "r < 32"
  shows "rotl32 x r = push_bit r x + drop_bit (32 - r) x"
proof -
  have "push_bit r x AND drop_bit (32 - r) x = 0"
    by (rule bit_eqI) (use assms in \<open>auto simp: bit_simps dest: bit_imp_le_length\<close>)
  then have "push_bit r x + drop_bit (32 - r) x = push_bit r x OR drop_bit (32 - r) x"
    by (rule disjunctive_add_eq_or)
  then show ?thesis
    by (simp only: rotl32_shift [OF assms])
qed

lemma QR_quarter_round: "QR q = quarter_round q"
  by (cases q) (simp add: QR.simps quarter_round_def rotl32_def Let_def)

lemma QR_at_quarter_on: "QR_at i j k l s = quarter_on s (i, j, k, l)"
  by (simp add: QR_at_def quarter_on_def QR_quarter_round)

lemma round_body_double_round: "round_body s = double_round s"
  by (simp add: round_body_def double_round_def column_groups_def diagonal_groups_def
      QR_at_quarter_on Let_def)

lemma round_loop_funpow: "round_loop n s = (double_round ^^ n) s"
  by (induction n arbitrary: s) (simp_all add: round_body_double_round funpow_swap1)

lemma length_quarter_on [simp]: "length (quarter_on s g) = length s"
  by (cases g) (simp add: quarter_on_def split: prod.splits)

lemma length_double_round [simp]: "length (double_round s) = length s"
  by (simp add: double_round_def column_groups_def diagonal_groups_def)

lemma length_funpow_double_round [simp]: "length ((double_round ^^ n) s) = length s"
  by (induction n) simp_all

lemma added_words:
  assumes "length xs = 16" "length ys = 16"
  shows "map (\<lambda>i. xs ! i + ys ! i) [0..<16] = map2 (+) xs (ys :: u32 list)"
  using assms by (intro nth_equalityI) simp_all

lemma counter_low: "(ucast (low32 w) :: u32) = ucast w"
  unfolding low32_def by (rule bit_word_eqI) (simp add: bit_simps)

lemma refill_keystream_generate_block:
  assumes "length (state c) = 16"
  shows "refill_keystream c = generate_block c"
proof -
  have ks: "map (\<lambda>i. round_loop 10 (state c) ! i + state c ! i) [0..<16]
      = keystream_block (state c)"
    using assms by (simp add: keystream_block_def round_loop_funpow added_words)
  have "refill_keystream c =
    c\<lparr> keystream := keystream_block (state c), block_counter := block_counter c + 1,
       state := (state c)[12 := ucast (block_counter c + 1),
                          13 := ucast (drop_bit 32 (block_counter c + 1))],
       keystream_pos := 0 \<rparr>"
    by (simp only: refill_keystream_def Let_def ks)
  also have "\<dots> = generate_block c"
    unfolding generate_block_def counter_low high32_def
    by (cases c) simp
  finally show ?thesis .
qed

text \<open>
  Claim C6. On a cipher whose state array has its 16 words, one refill computes the block by
  ten iterations of the four column and the four diagonal quarter rounds on a copy of the
  state, adds the state word by word, increments the block counter by one (as a 64-bit
  counter), writes its low and high halves to the state words 12 and 13 and resets the
  cursor to 0; nothing else changes.
\<close>

theorem refill_keystream_block:
  assumes "length (state c) = 16"
  shows "refill_keystream c = generate_block c
    \<and> keystream (refill_keystream c) = map2 (+) ((double_round ^^ 10) (state c)) (state c)
    \<and> block_counter (refill_keystream c) = block_counter c + 1
    \<and> keystream_pos (refill_keystream c) = 0"
  using refill_keystream_generate_block [OF assms]
  by (simp add: generate_block_def keystream_block_def)

section \<open>ChaCha20: evaluating blocks\<close>

text \<open>
  Concrete blocks are computed by rewriting. The rotation of a numeral is computed on
  natural numbers, so that the words stay small from one quarter round to the next.
\<close>

lemma word_of_nat_mod:
  "(word_of_nat (m mod 2 ^ LENGTH('a)) :: 'a::len word) = word_of_nat m"
  by (simp only: word_of_nat_eq_iff take_bit_eq_mod mod_mod_trivial)

lemma rotl32_numeral:
  assumes "0 < r" "r < 32"
  shows "rotl32 (numeral n) r
     = word_of_nat ((numeral n * 2 ^ r) mod 2 ^ 32 + (numeral n mod 2 ^ 32) div 2 ^ (32 - r))"
proof -
  have L: "LENGTH(32) = 32"
    by simp
  have p: "push_bit r (numeral n :: u32) = word_of_nat ((numeral n * 2 ^ r) mod 2 ^ 32)"
  proof -
    have "push_bit r (numeral n :: u32) = word_of_nat (numeral n * 2 ^ r)"
      by (simp add: push_bit_eq_mult)
    then show ?thesis
      using word_of_nat_mod [of "numeral n * 2 ^ r", where ?'a = 32] by (simp only: L)
  qed
  have d: "drop_bit (32 - r) (numeral n :: u32)
      = word_of_nat ((numeral n mod 2 ^ 32) div 2 ^ (32 - r))"
  proof -
    have "unat (numeral n :: u32) = numeral n mod 2 ^ 32"
      using unat_of_nat [of "numeral n", where ?'a = 32] by (simp only: L of_nat_numeral)
    moreover have "unat (drop_bit (32 - r) (numeral n :: u32))
        = drop_bit (32 - r) (unat (numeral n :: u32))"
      by (rule unat_drop_bit_eq)
    ultimately have "unat (drop_bit (32 - r) (numeral n :: u32))
        = (numeral n mod 2 ^ 32) div 2 ^ (32 - r)"
      by (simp only: drop_bit_eq_div)
    then show ?thesis
      by (metis of_nat_unat ucast_id)
  qed
  show ?thesis
    by (simp only: rotl32_add [OF assms] p d of_nat_add)
qed

lemma rotl32_0: "rotl32 0 r = 0"
  by (simp add: rotl32_def)

lemma round_loop_10:
  "round_loop 10 s = round_body (round_body (round_body (round_body (round_body
     (round_body (round_body (round_body (round_body (round_body s)))))))))"
  by (simp add: eval_nat_numeral)

lemmas chacha_eval = QR.simps QR_at_def round_body_def rotl32_numeral rotl32_0 Let_def

text \<open>The ten iterations on the state for the zero key, the zero nonce and counter 1.\<close>

lemma rounds_1:
  "round_loop 10 [1634760805, 857760878, 2036477234, 1797285236, 0, 0, 0, 0, 0, 0, 0, 0, 1, 0, 0, 0]
   = [1568051002, 1192750311, 53841254, 2716321791, 2687045579, 1768285000,
  1045677586, 3984256562, 1981921065, 1129244316, 2956161493, 3577337972,
  673180976, 1174080081, 520806828, 1867348299]"
  unfolding round_loop_10
  by (simp add: chacha_eval cong: let_weak_cong)

section \<open>ChaCha20: the stream and the one-block interface\<close>

lemma length_le_bytes [simp]: "length (le_bytes n w) = n"
  by (induction n arbitrary: w) simp_all

lemma length_concat_le_bytes [simp]: "length (concat (map (le_bytes n) ws)) = n * length ws"
  by (induction ws) simp_all

lemma length_keystream_bytes: "length (keystream c) = 16 \<Longrightarrow> length (keystream_bytes c) = 64"
  by (simp add: keystream_bytes_def)

lemma length_block_bytes: "length blk = 8 \<Longrightarrow> length (block_bytes blk) = 64"
  by (simp add: block_bytes_def)

lemma length_keystream_refill [simp]: "length (keystream (refill_keystream c)) = 16"
  by (simp add: refill_keystream_def Let_def)

lemma keystream_pos_refill [simp]: "keystream_pos (refill_keystream c) = 0"
  by (simp add: refill_keystream_def Let_def)

lemma keystream_refill_pos [simp]:
  "keystream (refill_keystream (c\<lparr> keystream_pos := p \<rparr>)) = keystream (refill_keystream c)"
  by (simp add: refill_keystream_def Let_def)

lemma xor_indexed:
  assumes "n \<le> length inp" "n \<le> length ks"
  shows "map (\<lambda>i. inp ! i XOR ks ! i) [0..<n] = map2 (XOR) (take n inp) (ks :: u8 list)"
  using assms by (intro nth_equalityI) simp_all

lemma xor_stream_Nil [simp]: "xor_stream c [] = ([], c)"
  by (subst xor_stream.simps) simp

text \<open>One pass of the loop that consumes all the input left.\<close>

lemma xor_stream_last:
  assumes "inp \<noteq> []" "keystream_pos c < 64" "length inp \<le> 64 - keystream_pos c"
    and "length (keystream c) = 16"
  shows "xor_stream c inp =
    (map2 (XOR) inp (drop (keystream_pos c) (keystream_bytes c)),
     c\<lparr> keystream_pos := keystream_pos c + length inp \<rparr>)"
proof -
  have "length inp \<le> length (drop (keystream_pos c) (keystream_bytes c))"
    using assms by (simp add: length_keystream_bytes)
  then have "map (\<lambda>i. inp ! i XOR drop (keystream_pos c) (keystream_bytes c) ! i) [0..<length inp]
      = map2 (XOR) inp (drop (keystream_pos c) (keystream_bytes c))"
    using xor_indexed [of "length inp" inp "drop (keystream_pos c) (keystream_bytes c)"] by simp
  then show ?thesis
    using assms by (subst xor_stream.simps) (simp add: Let_def min_def)
qed

text \<open>A pass that empties the current block and leaves input for the next.\<close>

lemma xor_stream_more:
  assumes "keystream_pos c < 64" "64 - keystream_pos c < length inp"
    and "length (keystream c) = 16"
  shows "xor_stream c inp =
    (let tk = 64 - keystream_pos c;
         (rest, c') = xor_stream (c\<lparr> keystream_pos := 64 \<rparr>) (drop tk inp)
     in (map2 (XOR) (take tk inp) (drop (keystream_pos c) (keystream_bytes c)) @ rest, c'))"
proof -
  have "map (\<lambda>i. inp ! i XOR drop (keystream_pos c) (keystream_bytes c) ! i) [0..<64 - keystream_pos c]
      = map2 (XOR) (take (64 - keystream_pos c) inp) (drop (keystream_pos c) (keystream_bytes c))"
    using assms by (intro xor_indexed) (simp_all add: length_keystream_bytes)
  moreover have "inp \<noteq> []"
    using assms by auto
  ultimately show ?thesis
    using assms by (subst xor_stream.simps) (simp add: Let_def min_def)
qed

lemma xor_stream_refill:
  assumes "inp \<noteq> []" "64 \<le> keystream_pos c"
  shows "xor_stream c inp = xor_stream (refill_keystream c) inp"
  using assms
  by (subst xor_stream.simps, subst (2) xor_stream.simps) (simp add: Let_def)

lemma zip_take_right: "zip xs (take (length xs) ys) = zip xs ys"
  by (induction xs ys rule: list_induct2') simp_all

lemma map2_xor_append:
  assumes "length xs = length ks"
  shows "map2 (XOR) xs ks @ map2 (XOR) ys ks' = map2 (XOR) (xs @ ys) (ks @ ks')"
  using assms by simp

lemma crypt_64_bytes:
  assumes "length bs = 64" "length (keystream c) = 16"
  shows "fst (crypt c bs) =
    map2 (XOR) bs (drop (keystream_pos c) (keystream_bytes c)
                   @ take (keystream_pos c) (keystream_bytes (refill_keystream c)))"
proof -
  consider (fresh) "64 \<le> keystream_pos c" | (start) "keystream_pos c = 0"
    | (inside) "0 < keystream_pos c" "keystream_pos c < 64"
    by linarith
  then show ?thesis
  proof cases
    case fresh
    have "bs \<noteq> []"
      using assms by auto
    then have "xor_stream c bs = xor_stream (refill_keystream c) bs"
      using fresh by (rule xor_stream_refill)
    also have "\<dots> = (map2 (XOR) bs (drop 0 (keystream_bytes (refill_keystream c))),
        (refill_keystream c)\<lparr> keystream_pos := 0 + length bs \<rparr>)"
      using xor_stream_last [of bs "refill_keystream c"] assms \<open>bs \<noteq> []\<close> by simp
    finally show ?thesis
      using fresh assms by (simp add: crypt_def length_keystream_bytes)
  next
    case start
    have "bs \<noteq> []"
      using assms by auto
    then show ?thesis
      using xor_stream_last [of bs c] assms start by (simp add: crypt_def)
  next
    case inside
    let ?p = "keystream_pos c"
    let ?c' = "c\<lparr> keystream_pos := 64 \<rparr>"
    have rest_ne: "drop (64 - ?p) bs \<noteq> []"
      using assms inside by simp
    have "xor_stream ?c' (drop (64 - ?p) bs) = xor_stream (refill_keystream ?c') (drop (64 - ?p) bs)"
      using rest_ne by (rule xor_stream_refill) simp
    also have "\<dots> = (map2 (XOR) (drop (64 - ?p) bs) (drop 0 (keystream_bytes (refill_keystream ?c'))),
        (refill_keystream ?c')\<lparr> keystream_pos := 0 + length (drop (64 - ?p) bs) \<rparr>)"
      using xor_stream_last [of "drop (64 - ?p) bs" "refill_keystream ?c'"] rest_ne assms inside
      by simp
    finally have second: "fst (xor_stream ?c' (drop (64 - ?p) bs))
        = map2 (XOR) (drop (64 - ?p) bs) (keystream_bytes (refill_keystream c))"
      by (simp add: keystream_bytes_def)
    have "fst (xor_stream c bs)
        = map2 (XOR) (take (64 - ?p) bs) (drop ?p (keystream_bytes c))
          @ fst (xor_stream ?c' (drop (64 - ?p) bs))"
      using xor_stream_more [of c bs] assms inside by (simp add: Let_def split_def)
    also have "\<dots> = map2 (XOR) (take (64 - ?p) bs) (drop ?p (keystream_bytes c))
          @ map2 (XOR) (drop (64 - ?p) bs) (take ?p (keystream_bytes (refill_keystream c)))"
    proof -
      have "length (drop (64 - ?p) bs) = ?p"
        using assms inside by simp
      then have "map2 (XOR) (drop (64 - ?p) bs) (keystream_bytes (refill_keystream c))
          = map2 (XOR) (drop (64 - ?p) bs) (take ?p (keystream_bytes (refill_keystream c)))"
        using zip_take_right [of "drop (64 - ?p) bs" "keystream_bytes (refill_keystream c)"]
        by simp
      then show ?thesis by (simp only: second)
    qed
    also have "\<dots> = map2 (XOR) (take (64 - ?p) bs @ drop (64 - ?p) bs)
          (drop ?p (keystream_bytes c) @ take ?p (keystream_bytes (refill_keystream c)))"
      using assms inside by (intro map2_xor_append) (simp add: length_keystream_bytes)
    finally show ?thesis
      by (simp add: crypt_def)
  qed
qed

lemma crypt_64_fresh:
  assumes "length bs = 64" "64 \<le> keystream_pos c"
  shows "crypt c bs = (map2 (XOR) bs (keystream_bytes (refill_keystream c)),
                       (refill_keystream c)\<lparr> keystream_pos := 64 \<rparr>)"
proof -
  have ne: "bs \<noteq> []"
    using assms by auto
  then have "xor_stream c bs = xor_stream (refill_keystream c) bs"
    using assms(2) by (rule xor_stream_refill)
  also have "\<dots> = (map2 (XOR) bs (drop 0 (keystream_bytes (refill_keystream c))),
      (refill_keystream c)\<lparr> keystream_pos := 0 + length bs \<rparr>)"
    using xor_stream_last [of bs "refill_keystream c"] assms ne by simp
  finally show ?thesis
    using assms by (simp add: crypt_def)
qed

lemma encrypt_block_stream:
  assumes "length blk = 8" "length (keystream c) = 16"
  shows "fst (encrypt_block c blk) =
    bytes_block (map2 (XOR) (block_bytes blk)
      (drop (keystream_pos c) (keystream_bytes c)
       @ take (keystream_pos c) (keystream_bytes (refill_keystream c))))"
  using crypt_64_bytes [of "block_bytes blk" c] assms
  by (simp add: encrypt_block_def Let_def split_def length_block_bytes)

lemma encrypt_block_fresh:
  assumes "length blk = 8" "64 \<le> keystream_pos c"
  shows "encrypt_block c blk =
    (bytes_block (map2 (XOR) (block_bytes blk) (keystream_bytes (refill_keystream c))),
     (refill_keystream c)\<lparr> keystream_pos := 64 \<rparr>)"
  using crypt_64_fresh [of "block_bytes blk" c] assms
  by (simp add: encrypt_block_def Let_def length_block_bytes)

text \<open>The parts of the state after one refill, for evaluation.\<close>

lemma refill_parts:
  assumes "length (state c) = 16"
  shows "keystream (refill_keystream c) = map2 (+) (round_loop 10 (state c)) (state c)"
    and "state (refill_keystream c)
         = (state c)[12 := ucast (block_counter c + 1),
                     13 := ucast (drop_bit 32 (block_counter c + 1))]"
    and "block_counter (refill_keystream c) = block_counter c + 1"
proof -
  have "length (round_loop 10 (state c)) = 16"
    using assms by (simp add: round_loop_funpow)
  then show "keystream (refill_keystream c) = map2 (+) (round_loop 10 (state c)) (state c)"
    using assms by (simp add: refill_keystream_def Let_def added_words)
qed (simp_all add: refill_keystream_def Let_def)

lemma le_bytes_4:
  "le_bytes 4 w = [ucast w, ucast (drop_bit 8 w), ucast (drop_bit 16 w), ucast (drop_bit 24 w)]"
  by (simp add: eval_nat_numeral)

lemma le_bytes_8:
  "le_bytes 8 w = [ucast w, ucast (drop_bit 8 w), ucast (drop_bit 16 w), ucast (drop_bit 24 w),
     ucast (drop_bit 32 w), ucast (drop_bit 40 w), ucast (drop_bit 48 w), ucast (drop_bit 56 w)]"
  by (simp add: eval_nat_numeral)

lemma bytes_block_words:
  "bytes_block bs = [src64 bs 0, src64 bs 1, src64 bs 2, src64 bs 3,
                     src64 bs 4, src64 bs 5, src64 bs 6, src64 bs 7]"
  by (simp add: bytes_block_def upt_rec eval_nat_numeral)

lemma state_new: "state (ChaCha20_new [0, 0, 0, 0, 0, 0, 0, 0] [0, 0, 0] 1) =  [1634760805, 857760878, 2036477234, 1797285236, 0, 0, 0, 0, 0, 0, 0, 0, 1,
  0, 0, 0]"
  by (simp add: ChaCha20_new_def memcpy_def sigma_def eval_nat_numeral)

lemma new_parts [simp]:
  "keystream_pos (ChaCha20_new key nonce ctr) = 64"
  "block_counter (ChaCha20_new key nonce ctr) = ctr"
  by (simp_all add: ChaCha20_new_def Let_def)

text \<open>
  The first keystream block for the zero key and nonce with counter 1; its bytes start
  \<open>9f 07 e7 be\<close>.
\<close>

lemma ks1: "keystream (refill_keystream (ChaCha20_new [0, 0, 0, 0, 0, 0, 0, 0] [0, 0, 0] 1))
  = [3202811807, 2050511189, 2090318488, 218639731, 2687045579, 1768285000,
  1045677586, 3984256562, 1981921065, 1129244316, 2956161493, 3577337972,
  673180977, 1174080081, 520806828, 1867348299]"
  by (subst refill_parts(1)) (simp_all add: state_new rounds_1)

text \<open>The same with counter 2, the state after the first block.\<close>

lemma rounds_2:
  "round_loop 10 [1634760805, 857760878, 2036477234, 1797285236, 0, 0, 0, 0, 0, 0, 0, 0, 2, 0, 0, 0]
   = [2234486984, 2924200437, 2406437244, 176161445, 2576249230, 3328365435,
  877052848, 1572053161, 1748444929, 257784607, 4248444456, 515660004,
  332649073, 3230977993, 1651635039, 4064846400]"
  unfolding round_loop_10
  by (simp add: chacha_eval cong: let_weak_cong)

lemma state_refill_new:
  "state (refill_keystream (ChaCha20_new [0, 0, 0, 0, 0, 0, 0, 0] [0, 0, 0] 1))
   = [1634760805, 857760878, 2036477234, 1797285236, 0, 0, 0, 0, 0, 0, 0, 0, 2, 0, 0, 0]"
  by (subst refill_parts(2)) (simp_all add: state_new)

lemma crypt_one_byte:
  "snd (crypt (ChaCha20_new [0, 0, 0, 0, 0, 0, 0, 0] [0, 0, 0] 1) [0])
   = (refill_keystream (ChaCha20_new [0, 0, 0, 0, 0, 0, 0, 0] [0, 0, 0] 1))\<lparr> keystream_pos := 1 \<rparr>"
proof -
  let ?c = "ChaCha20_new [0, 0, 0, 0, 0, 0, 0, 0] [0, 0, 0] 1"
  have "xor_stream ?c [0] = xor_stream (refill_keystream ?c) [0]"
    by (rule xor_stream_refill) simp_all
  then show ?thesis
    using xor_stream_last [of "[0]" "refill_keystream ?c"] by (simp add: crypt_def)
qed

lemma ks2:
  "keystream (refill_keystream
     (refill_keystream (ChaCha20_new [0, 0, 0, 0, 0, 0, 0, 0] [0, 0, 0] 1)))
   = [3869247789, 3781961315, 147947182, 1973446681, 2576249230, 3328365435,
  877052848, 1572053161, 1748444929, 257784607, 4248444456, 515660004,
  332649075, 3230977993, 1651635039, 4064846400]"
  by (subst refill_parts(1)) (simp_all add: state_refill_new rounds_2)

lemma stale_result:
  "fst (encrypt_block (snd (crypt (ChaCha20_new [0, 0, 0, 0, 0, 0, 0, 0] [0, 0, 0] 1) [0]))
         [0, 0, 0, 0, 0, 0, 0, 0])
   = [10987156162905827079, 14631359755700705210, 1326703592087759119,
   3021206088499221446, 15367213105892696503, 3590839879731262321,
   12413603969646469101, 3273920637468347105]"
  unfolding crypt_one_byte
  by (subst encrypt_block_stream)
     (simp_all add: ks1 ks2 keystream_bytes_def block_bytes_def le_bytes_4 le_bytes_8
        bytes_block_words src64_def)

lemma fresh_block:
  "bytes_block (map2 (XOR) (block_bytes [0, 0, 0, 0, 0, 0, 0, 0])
     (keystream_bytes (refill_keystream
        (snd (crypt (ChaCha20_new [0, 0, 0, 0, 0, 0, 0, 0] [0, 0, 0] 1) [0])))))
   = [16243400166531402029, 8475888955442691758, 14295220695038062990,
  6751916914945475504, 1107176458225657601, 2214742857283673640,
  13876944814363366003, 17458382352914969439]"
  unfolding crypt_one_byte
  by (simp add: ks2 keystream_bytes_def block_bytes_def le_bytes_4 le_bytes_8
        bytes_block_words src64_def)

text \<open>
  Claim C3, as stated: \<open>encrypt_block\<close> returns its input XORed with one freshly generated
  block, whatever the cursor. It fails on a cipher that has encrypted one byte before: 63
  bytes of the result come from the block generated for that byte.
\<close>

theorem encrypt_block_counterexample:
  "fst (encrypt_block (snd (crypt (ChaCha20_new [0, 0, 0, 0, 0, 0, 0, 0] [0, 0, 0] 1) [0]))
         [0, 0, 0, 0, 0, 0, 0, 0])
   \<noteq> bytes_block (map2 (XOR) (block_bytes [0, 0, 0, 0, 0, 0, 0, 0])
     (keystream_bytes (refill_keystream
        (snd (crypt (ChaCha20_new [0, 0, 0, 0, 0, 0, 0, 0] [0, 0, 0] 1) [0])))))"
  unfolding stale_result fresh_block by simp

text \<open>
  Claim C3, amended. \<open>encrypt_block\<close> returns its input XORed with the next 64 bytes of the
  keystream: the unread bytes of the current block, then the first bytes of one freshly
  generated block. With the cursor at 64, as on a newly constructed cipher, these are
  exactly one freshly generated block, and the cursor is left at 64.
\<close>

theorem encrypt_block_next_keystream:
  assumes "length blk = 8" and "length (keystream c) = 16"
  shows "fst (encrypt_block c blk) =
      bytes_block (map2 (XOR) (block_bytes blk)
        (drop (keystream_pos c) (keystream_bytes c)
         @ take (keystream_pos c) (keystream_bytes (refill_keystream c))))
    \<and> (64 \<le> keystream_pos c \<longrightarrow>
         encrypt_block c blk =
           (bytes_block (map2 (XOR) (block_bytes blk) (keystream_bytes (refill_keystream c))),
            (refill_keystream c)\<lparr> keystream_pos := 64 \<rparr>))"
  using encrypt_block_stream [OF assms] encrypt_block_fresh [OF assms(1)] by simp

text \<open>The two theorems on the cipher for the zero key and nonce with counter 1.\<close>

theorem refill_keystream_block_witness:
  "length (state (ChaCha20_new [0, 0, 0, 0, 0, 0, 0, 0] [0, 0, 0] 1)) = 16
   \<and> refill_keystream (ChaCha20_new [0, 0, 0, 0, 0, 0, 0, 0] [0, 0, 0] 1)
       = generate_block (ChaCha20_new [0, 0, 0, 0, 0, 0, 0, 0] [0, 0, 0] 1)
   \<and> block_counter (refill_keystream (ChaCha20_new [0, 0, 0, 0, 0, 0, 0, 0] [0, 0, 0] 1)) = 2"
proof -
  have len: "length (state (ChaCha20_new [0, 0, 0, 0, 0, 0, 0, 0] [0, 0, 0] 1)) = 16"
    by (simp add: state_new)
  show ?thesis
    using refill_keystream_block [OF len] len by (simp add: generate_block_def)
qed

theorem encrypt_block_next_keystream_witness:
  "length [0, 0, 0, 0, 0, 0, 0, 0 :: u64] = 8
   \<and> length (keystream (ChaCha20_new [0, 0, 0, 0, 0, 0, 0, 0] [0, 0, 0] 1)) = 16
   \<and> 64 \<le> keystream_pos (ChaCha20_new [0, 0, 0, 0, 0, 0, 0, 0] [0, 0, 0] 1)
   \<and> encrypt_block (ChaCha20_new [0, 0, 0, 0, 0, 0, 0, 0] [0, 0, 0] 1) [0, 0, 0, 0, 0, 0, 0, 0]
       = (bytes_block (map2 (XOR) (block_bytes [0, 0, 0, 0, 0, 0, 0, 0])
            (keystream_bytes
               (refill_keystream (ChaCha20_new [0, 0, 0, 0, 0, 0, 0, 0] [0, 0, 0] 1)))),
          (refill_keystream (ChaCha20_new [0, 0, 0, 0, 0, 0, 0, 0] [0, 0, 0] 1))
            \<lparr> keystream_pos := 64 \<rparr>)"
proof -
  have blk: "length [0, 0, 0, 0, 0, 0, 0, 0 :: u64] = 8"
    by simp
  have ks: "length (keystream (ChaCha20_new [0, 0, 0, 0, 0, 0, 0, 0] [0, 0, 0] 1)) = 16"
    by (simp add: ChaCha20_new_def Let_def)
  have pos: "64 \<le> keystream_pos (ChaCha20_new [0, 0, 0, 0, 0, 0, 0, 0] [0, 0, 0] 1)"
    by simp
  show ?thesis
    using encrypt_block_next_keystream [OF blk ks] blk ks pos by blast
qed

section \<open>jsHash: insertion as absorption\<close>

text \<open>
  One block step of the code is \<open>absorb_block\<close> on the lanes, the fast path is \<open>absorb\<close>,
  and a whole call of \<open>insert\<close> absorbs the buffered tail followed by the new bytes.
\<close>

lemma length_absorb_block [simp]: "length (absorb_block lanes blk) = 4"
  by (simp add: absorb_block_def)

lemma four_lanes:
  assumes "length (lanes :: u64 list) = 4"
  shows "lanes = [lanes ! 0, lanes ! 1, lanes ! 2, lanes ! 3]"
  using assms by (intro nth_equalityI) (auto simp: nth_Cons' less_Suc_eq numeral_eq_Suc)

lemma process_32bytes_absorb_block:
  assumes "length (v h) = 4"
  shows "process_32bytes h p = h\<lparr> v := absorb_block (v h) (take 32 p) \<rparr>"
proof -
  obtain a b c d where lanes: "v h = [a, b, c, d]"
    using four_lanes [OF assms] by blast
  have words: "src64 p 0 = le_word (take 8 (take 32 p))"
    "src64 p 1 = le_word (take 8 (drop 8 (take 32 p)))"
    "src64 p 2 = le_word (take 8 (drop 16 (take 32 p)))"
    "src64 p 3 = le_word (take 8 (drop 24 (take 32 p)))"
    by (simp_all add: src64_def drop_take)
  show ?thesis
    unfolding process_32bytes_def Let_def absorb_block_def words [symmetric]
    by (simp add: lanes)
qed

lemma length_absorb_lanes:
  "length lanes = 4 \<Longrightarrow> length (fst (absorb lanes bs)) = 4"
proof (induction lanes bs rule: absorb.induct)
  case (1 lanes bs)
  then show ?case
    by (subst absorb.simps) simp
qed

lemma length_absorb_tail: "length (snd (absorb lanes bs)) < 32"
proof (induction lanes bs rule: absorb.induct)
  case (1 lanes bs)
  then show ?case
    by (subst absorb.simps) simp
qed

lemma absorb_short: "length bs < 32 \<Longrightarrow> absorb lanes bs = (lanes, bs)"
  by (subst absorb.simps) simp

lemma absorb_block_first:
  assumes "length blk = 32"
  shows "absorb lanes (blk @ bs) = absorb (absorb_block lanes blk) bs"
  using assms by (subst absorb.simps) simp

text \<open>The fast path is absorption into the lanes; it touches nothing else.\<close>

lemma fast_path_absorb:
  assumes "length (v h) = 4"
  shows "fast_path h ptr = (h\<lparr> v := fst (absorb (v h) ptr) \<rparr>, snd (absorb (v h) ptr))"
  using assms
proof (induction h ptr rule: fast_path.induct)
  case (1 h ptr)
  show ?case
  proof (cases "32 \<le> length ptr")
    case True
    let ?h = "h\<lparr> v := absorb_block (v h) (take 32 ptr) \<rparr>"
    have step: "process_32bytes h ptr = ?h"
      using "1.prems" by (rule process_32bytes_absorb_block)
    have "fast_path h ptr = fast_path ?h (drop 32 ptr)"
      using True by (subst fast_path.simps) (simp add: step)
    also have "\<dots> = (?h\<lparr> v := fst (absorb (v ?h) (drop 32 ptr)) \<rparr>,
        snd (absorb (v ?h) (drop 32 ptr)))"
      using "1.IH" [OF True] by (simp add: step)
    also have "absorb (v ?h) (drop 32 ptr) = absorb (v h) ptr"
      using True by (subst (2) absorb.simps) simp
    finally show ?thesis
      by simp
  next
    case False
    then show ?thesis
      by (subst fast_path.simps) (simp add: absorb_short)
  qed
qed

text \<open>Absorbing a concatenation: absorb the first part, then the leftover with the rest.\<close>

lemma absorb_append:
  "absorb lanes (xs @ ys) = absorb (fst (absorb lanes xs)) (snd (absorb lanes xs) @ ys)"
proof (induction lanes xs rule: absorb.induct)
  case (1 lanes xs)
  show ?case
  proof (cases "32 \<le> length xs")
    case True
    have "absorb lanes (xs @ ys) = absorb (absorb_block lanes (take 32 xs)) (drop 32 xs @ ys)"
      using True by (subst absorb.simps) simp
    also have "\<dots> = absorb (fst (absorb (absorb_block lanes (take 32 xs)) (drop 32 xs)))
        (snd (absorb (absorb_block lanes (take 32 xs)) (drop 32 xs)) @ ys)"
      using "1.IH" [OF True] .
    also have "absorb (absorb_block lanes (take 32 xs)) (drop 32 xs) = absorb lanes xs"
      using True by (subst (2) absorb.simps) simp
    finally show ?thesis .
  next
    case False
    then show ?thesis
      by (simp add: absorb_short)
  qed
qed

lemma wf_hash_nbytes [simp]: "wf_hash (h\<lparr> nbytes := n \<rparr>) = wf_hash h"
  by (simp add: wf_hash_def)

lemma pending_nbytes [simp]: "pending (h\<lparr> nbytes := n \<rparr>) = pending h"
  by (simp add: pending_def)

lemma length_pending: "wf_hash h \<Longrightarrow> length (pending h) = buffer_index h"
  by (simp add: wf_hash_def pending_def)

lemma tail_part_absorb:
  assumes "wf_hash h1" and "ptr1 = [] \<or> buffer_index h1 = 0"
  shows "wf_hash (tail_part h1 ptr1)
    \<and> v (tail_part h1 ptr1) = fst (absorb (v h1) (pending h1 @ ptr1))
    \<and> pending (tail_part h1 ptr1) = snd (absorb (v h1) (pending h1 @ ptr1))
    \<and> nbytes (tail_part h1 ptr1) = nbytes h1"
  using assms(2)
proof
  assume "ptr1 = []"
  moreover have "length (pending h1) < 32"
    using assms(1) by (simp add: wf_hash_def pending_def)
  ultimately show ?thesis
    using assms(1) by (simp add: tail_part_def fast_path_absorb wf_hash_def absorb_short)
next
  assume empty: "buffer_index h1 = 0"
  let ?t = "snd (absorb (v h1) ptr1)"
  have lanes: "length (v h1) = 4" and buf: "length (buffer h1) = 32"
    using assms(1) by (simp_all add: wf_hash_def)
  have t: "length ?t < 32"
    by (rule length_absorb_tail)
  have p: "pending h1 = []"
    using empty by (simp add: pending_def)
  show ?thesis
  proof (cases "?t = []")
    case True
    then show ?thesis
      using lanes buf empty p
      by (simp add: tail_part_def fast_path_absorb wf_hash_def pending_def length_absorb_lanes)
  next
    case False
    then show ?thesis
      using lanes buf t empty
      by (simp add: tail_part_def fast_path_absorb wf_hash_def pending_def length_absorb_lanes
          memcpy_def)
  qed
qed

lemma top_up_absorb:
  fixes h :: jsHash and x :: "u8 list"
  assumes "wf_hash h"
  defines "tk \<equiv> min (32 - buffer_index h) (length x)"
  shows "wf_hash (top_up h x)
    \<and> (drop tk x = [] \<or> buffer_index (top_up h x) = 0)
    \<and> nbytes (top_up h x) = nbytes h
    \<and> absorb (v (top_up h x)) (pending (top_up h x) @ drop tk x) = absorb (v h) (pending h @ x)"
proof (cases "32 - buffer_index h \<le> length x")
  case True
  let ?i = "buffer_index h"
  let ?blk = "pending h @ take (32 - ?i) x"
  have lanes: "length (v h) = 4" and buf: "length (buffer h) = 32" and i: "?i < 32"
    using assms(1) by (simp_all add: wf_hash_def)
  have tk: "tk = 32 - ?i"
    using True by (simp add: tk_def)
  have filled: "memcpy (buffer h) ?i (take (32 - ?i) x) = ?blk"
    using True buf i by (simp add: memcpy_def pending_def)
  have blk: "length ?blk = 32"
    using True buf i by (simp add: pending_def)
  have lp: "length (pending h) = ?i"
    using assms(1) by (rule length_pending)
  have top: "top_up h x = h\<lparr> buffer := ?blk, buffer_index := 0, v := absorb_block (v h) ?blk \<rparr>"
    using True i lanes blk
    by (simp add: top_up_def Let_def filled process_buffer_def process_32bytes_absorb_block lp)
  have "absorb (v h) (pending h @ x) = absorb (v h) (?blk @ drop (32 - ?i) x)"
    by simp
  also have "\<dots> = absorb (absorb_block (v h) ?blk) (drop (32 - ?i) x)"
    using blk by (rule absorb_block_first)
  finally show ?thesis
    using blk by (simp add: top tk wf_hash_def pending_def)
next
  case False
  let ?i = "buffer_index h"
  have lanes: "length (v h) = 4" and buf: "length (buffer h) = 32" and i: "?i < 32"
    using assms(1) by (simp_all add: wf_hash_def)
  have tk: "tk = length x"
    using False by (simp add: tk_def)
  have top: "top_up h x = h\<lparr> buffer := memcpy (buffer h) ?i x, buffer_index := ?i + length x \<rparr>"
    using False by (simp add: top_up_def Let_def)
  have "pending (top_up h x) = pending h @ x"
    using False buf i by (simp add: top pending_def memcpy_def)
  then show ?thesis
    using False lanes buf i by (simp add: top tk wf_hash_def memcpy_def)
qed

lemma insert_bytes_parts:
  fixes h :: jsHash and x :: "u8 list"
  assumes "x \<noteq> []"
  defines "h3 \<equiv> (if 0 < buffer_index h
                  then tail_part (top_up h x) (drop (min (32 - buffer_index h) (length x)) x)
                  else tail_part h x)"
  shows "insert_bytes h x =
      (if nbytes h3 + of_nat (length x) < of_nat (length x) then Inl CounterOverflow
       else Inr (h3\<lparr> nbytes := nbytes h3 + of_nat (length x) \<rparr>))"
  using assms(1)
  by (simp add: insert_bytes_def h3_def tail_part_def top_up_def Let_def split: prod.splits)

text \<open>
  What one \<open>insert\<close> does to the lanes, the buffered tail and the counter: it absorbs
  the tail followed by the new bytes.
\<close>

lemma insert_bytes_absorb:
  assumes "wf_hash h" and "insert_bytes h x = Inr h'"
  shows "wf_hash h'
    \<and> v h' = fst (absorb (v h) (pending h @ x))
    \<and> pending h' = snd (absorb (v h) (pending h @ x))
    \<and> nbytes h' = nbytes h + of_nat (length x)"
proof (cases "x = []")
  case True
  have "length (pending h) < 32"
    using assms(1) by (simp add: wf_hash_def pending_def)
  then show ?thesis
    using assms True by (simp add: insert_bytes_def absorb_short)
next
  case False
  define h3 where "h3 = (if 0 < buffer_index h
                  then tail_part (top_up h x) (drop (min (32 - buffer_index h) (length x)) x)
                  else tail_part h x)"
  have h': "h' = h3\<lparr> nbytes := nbytes h3 + of_nat (length x) \<rparr>"
    using insert_bytes_parts [OF False, of h] assms(2)
    by (simp add: h3_def split: if_splits)
  have "wf_hash h3 \<and> v h3 = fst (absorb (v h) (pending h @ x))
    \<and> pending h3 = snd (absorb (v h) (pending h @ x)) \<and> nbytes h3 = nbytes h"
  proof (cases "0 < buffer_index h")
    case True
    let ?tk = "min (32 - buffer_index h) (length x)"
    from top_up_absorb [OF assms(1), of x]
    have top: "wf_hash (top_up h x)" "drop ?tk x = [] \<or> buffer_index (top_up h x) = 0"
      "nbytes (top_up h x) = nbytes h"
      "absorb (v (top_up h x)) (pending (top_up h x) @ drop ?tk x) = absorb (v h) (pending h @ x)"
      by simp_all
    show ?thesis
      using tail_part_absorb [OF top(1) top(2)] top(3) top(4) True by (simp add: h3_def)
  next
    case False
    then have "pending h = []" "buffer_index h = 0"
      by (simp_all add: pending_def)
    then show ?thesis
      using tail_part_absorb [OF assms(1), of x] by (simp add: h3_def)
  qed
  then show ?thesis
    by (simp add: h')
qed

lemma insert_all_absorb:
  assumes "wf_hash h" and "insert_all h chunks = Inr h'"
  shows "wf_hash h'
    \<and> v h' = fst (absorb (v h) (pending h @ concat chunks))
    \<and> pending h' = snd (absorb (v h) (pending h @ concat chunks))
    \<and> nbytes h' = nbytes h + of_nat (length (concat chunks))"
  using assms
proof (induction chunks arbitrary: h)
  case Nil
  have "length (pending h) < 32"
    using Nil.prems(1) by (simp add: wf_hash_def pending_def)
  then show ?case
    using Nil.prems by (simp add: absorb_short)
next
  case (Cons x chunks)
  from Cons.prems(2) obtain h1 where h1: "insert_bytes h x = Inr h1"
    and rest: "insert_all h1 chunks = Inr h'"
    by (auto split: sum.splits)
  from insert_bytes_absorb [OF Cons.prems(1) h1]
  have one: "wf_hash h1" "v h1 = fst (absorb (v h) (pending h @ x))"
    "pending h1 = snd (absorb (v h) (pending h @ x))"
    "nbytes h1 = nbytes h + of_nat (length x)"
    by simp_all
  from Cons.IH [OF one(1) rest]
  have all: "wf_hash h'" "v h' = fst (absorb (v h1) (pending h1 @ concat chunks))"
    "pending h' = snd (absorb (v h1) (pending h1 @ concat chunks))"
    "nbytes h' = nbytes h1 + of_nat (length (concat chunks))"
    by simp_all
  have "absorb (v h) (pending h @ concat (x # chunks))
      = absorb (v h1) (pending h1 @ concat chunks)"
    using absorb_append [of "v h" "pending h @ x" "concat chunks"] by (simp add: one)
  then show ?case
    using all one by simp
qed

text \<open>With room left in the counter every call of a sequence returns.\<close>

lemma insert_all_returns:
  assumes "unat (nbytes h) + length (concat chunks) < 2 ^ 64"
  shows "\<exists>h'. insert_all h chunks = Inr h'"
  using assms
proof (induction chunks arbitrary: h)
  case Nil
  then show ?case by simp
next
  case (Cons x chunks)
  have len: "length x < 2 ^ 64" and room: "unat (nbytes h) + length x < 2 ^ 64"
    using Cons.prems by simp_all
  from insert_bytes_nbytes [OF len, of h] room
  obtain h1 where h1: "insert_bytes h x = Inr h1"
    and n1: "unat (nbytes h1) = unat (nbytes h) + length x"
    by blast
  have "unat (nbytes h1) + length (concat chunks) < 2 ^ 64"
    using Cons.prems by (simp add: n1)
  from Cons.IH [OF this] show ?case
    by (simp add: h1)
qed

text \<open>Finalization reads a state through its lanes, its counter and its buffered tail.\<close>

lemma flush_tail_padded:
  assumes "wf_hash h"
  shows "v (flush_tail (jsHash_copy h)) = padded_lanes h"
    and "nbytes (flush_tail (jsHash_copy h)) = nbytes h"
proof -
  have lanes: "length (v h) = 4" and buf: "length (buffer h) = 32" and i: "buffer_index h < 32"
    using assms by (simp_all add: wf_hash_def)
  have copy: "jsHash_copy h = h"
    by (simp add: jsHash_copy_def)
  show "nbytes (flush_tail (jsHash_copy h)) = nbytes h"
    by (simp add: copy flush_tail_def Let_def)
  show "v (flush_tail (jsHash_copy h)) = padded_lanes h"
  proof (cases "0 < buffer_index h")
    case True
    have "pending h \<noteq> []"
      using True buf by (auto simp: pending_def)
    moreover have "memset (buffer h) (buffer_index h) 0 (32 - buffer_index h)
        = pending h @ replicate (32 - length (pending h)) 0"
      using buf i by (simp add: memset_def pending_def)
    ultimately show ?thesis
      using True lanes buf i
      by (simp add: copy flush_tail_def Let_def process_buffer_def padded_lanes_def
          process_32bytes_absorb_block length_pending [OF assms])
  next
    case False
    then show ?thesis
      by (simp add: copy flush_tail_def padded_lanes_def pending_def)
  qed
qed

lemma hash256_finish:
  assumes "wf_hash h"
  shows "hash256 h = finish (padded_lanes h) (nbytes h) (high32 (nbytes h))"
  by (simp add: hash256_def hash256_call_def Let_def flush_tail_padded [OF assms]
      finish_def high32_def)

lemma hash128_hash256: "hash128 h = [hash256 h ! 0 XOR hash256 h ! 1, hash256 h ! 2 XOR hash256 h ! 3]"
  by (simp add: hash128_def hash128_call_def hash256_def Let_def split_def)

lemma hash64_hash256:
  "hash64 h = hash256 h ! 0 XOR hash256 h ! 1 XOR hash256 h ! 2 XOR hash256 h ! 3"
  by (simp add: hash64_def hash64_call_def hash256_def Let_def split_def)

lemma hash_secure_words:
  assumes "wf_hash h"
  shows "hash_secure N key nonce h =
    memcpy (replicate N 0) 0 (take N (fst (encrypt_block (ChaCha20_new key nonce 1)
      (secure_words (padded_lanes h) (nbytes h) (high32 (nbytes h))))))"
  by (simp add: hash_secure_def hash_secure_call_def Let_def split_def secure_block_def
      secure_words_def flush_tail_padded [OF assms] high32_def)

lemma same_view_same_digests:
  assumes "wf_hash h1" "wf_hash h2"
    and "v h1 = v h2" "pending h1 = pending h2" "nbytes h1 = nbytes h2"
  shows "hash256 h1 = hash256 h2" "hash128 h1 = hash128 h2" "hash64 h1 = hash64 h2"
    "hash_secure N key nonce h1 = hash_secure N key nonce h2"
proof -
  have "padded_lanes h1 = padded_lanes h2"
    using assms(3,4) by (simp add: padded_lanes_def)
  then show "hash256 h1 = hash256 h2"
    and "hash_secure N key nonce h1 = hash_secure N key nonce h2"
    using assms(5)
    by (simp_all add: hash256_finish [OF assms(1)] hash256_finish [OF assms(2)]
        hash_secure_words [OF assms(1)] hash_secure_words [OF assms(2)])
  then show "hash128 h1 = hash128 h2" "hash64 h1 = hash64 h2"
    by (simp_all add: hash128_hash256 hash64_hash256)
qed

lemma wf_hash_new [simp]: "wf_hash (jsHash_new seed)"
  by (simp add: wf_hash_def jsHash_new_def Let_def split_def)

lemma pending_new [simp]: "pending (jsHash_new seed) = []"
  by (simp add: pending_def jsHash_new_def Let_def split_def)

lemma chunks_and_bulk:
  assumes "length (concat chunks) < 2 ^ 64"
  shows "\<exists>h1 h2. insert_all (jsHash_new seed) chunks = Inr h1
      \<and> insert_bytes (jsHash_new seed) (concat chunks) = Inr h2
      \<and> hash256 h1 = hash256 h2 \<and> hash128 h1 = hash128 h2 \<and> hash64 h1 = hash64 h2
      \<and> hash_secure N key nonce h1 = hash_secure N key nonce h2"
proof -
  let ?h = "jsHash_new seed"
  have room: "unat (nbytes ?h) + length (concat chunks) < 2 ^ 64"
    using assms by simp
  obtain h1 where h1: "insert_all ?h chunks = Inr h1"
    using insert_all_returns [OF room] by blast
  obtain h2 where h2: "insert_bytes ?h (concat chunks) = Inr h2"
    using insert_bytes_nbytes [OF assms, of ?h] room by blast
  from insert_all_absorb [OF wf_hash_new h1]
  have a: "wf_hash h1" "v h1 = fst (absorb (v ?h) (concat chunks))"
    "pending h1 = snd (absorb (v ?h) (concat chunks))"
    "nbytes h1 = of_nat (length (concat chunks))"
    by simp_all
  from insert_bytes_absorb [OF wf_hash_new h2]
  have b: "wf_hash h2" "v h2 = fst (absorb (v ?h) (concat chunks))"
    "pending h2 = snd (absorb (v ?h) (concat chunks))"
    "nbytes h2 = of_nat (length (concat chunks))"
    by simp_all
  have "hash256 h1 = hash256 h2 \<and> hash128 h1 = hash128 h2 \<and> hash64 h1 = hash64 h2
      \<and> hash_secure N key nonce h1 = hash_secure N key nonce h2"
    using same_view_same_digests [OF a(1) b(1)] a b by simp
  then show ?thesis
    using h1 h2 by blast
qed

text \<open>
  Claim C5. For every seed and every sequence of chunks (empty ones included) whose total
  length a \<open>size_t\<close> holds, inserting the chunks in order and inserting their concatenation
  in one call both return, and the two objects have the same \<open>hash256\<close>, \<open>hash128\<close>,
  \<open>hash64\<close> and \<open>hash_secure<N>\<close> digests for every key and nonce; an insertion of
  length zero returns the object as it was.
\<close>

theorem chunk_invariance:
  assumes "length (concat chunks) < 2 ^ 64"
  shows "insert_bytes h [] = Inr h
    \<and> (\<exists>h1 h2. insert_all (jsHash_new seed) chunks = Inr h1
      \<and> insert_bytes (jsHash_new seed) (concat chunks) = Inr h2
      \<and> hash256 h1 = hash256 h2 \<and> hash128 h1 = hash128 h2 \<and> hash64 h1 = hash64 h2
      \<and> hash_secure N key nonce h1 = hash_secure N key nonce h2)"
  using chunks_and_bulk [OF assms] by (simp add: insert_bytes_def)

theorem chunk_invariance_witness:
  "length (concat [[1, 2], [], [3 :: u8]]) < 2 ^ 64
   \<and> (\<exists>h1 h2. insert_all (jsHash_new 42) [[1, 2], [], [3]] = Inr h1
      \<and> insert_bytes (jsHash_new 42) (concat [[1, 2], [], [3]]) = Inr h2
      \<and> hash256 h1 = hash256 h2 \<and> hash128 h1 = hash128 h2 \<and> hash64 h1 = hash64 h2
      \<and> hash_secure 4 [0, 0, 0, 0, 0, 0, 0, 0] [0, 0, 0] h1
          = hash_secure 4 [0, 0, 0, 0, 0, 0, 0, 0] [0, 0, 0] h2)"
proof -
  have len: "length (concat [[1, 2], [], [3 :: u8]]) < 2 ^ 64"
    by simp
  show ?thesis
    using chunk_invariance [OF len, of "jsHash_new 42" 42 4 "[0, 0, 0, 0, 0, 0, 0, 0]" "[0, 0, 0]"]
      len
    by blast
qed

section \<open>jsHash: the byte count in the digests\<close>

text \<open>
  Mixing a lane with the word \<open>MIX\<close> multiplies by zero and leaves \<open>a XOR MIX\<close>, so two
  blocks of such words restore the lanes. The four-gigabyte input therefore leaves the
  lanes of \<open>jsHash(42)\<close> as they were, with a byte count of \<open>2 ^ 32\<close>.
\<close>

lemma mix_MIX: "mix a MIX = a XOR MIX"
  by (simp add: mix_def)

lemma mix_block_bytes:
  "mix_block = [0xb9, 0xe5, 0xe4, 0x1c, 0x6d, 0x47, 0x58, 0xbf,
                0xb9, 0xe5, 0xe4, 0x1c, 0x6d, 0x47, 0x58, 0xbf,
                0xb9, 0xe5, 0xe4, 0x1c, 0x6d, 0x47, 0x58, 0xbf,
                0xb9, 0xe5, 0xe4, 0x1c, 0x6d, 0x47, 0x58, 0xbf]"
proof -
  have "replicate 4 x = [x, x, x, x]" for x :: "u8 list"
    by (simp add: eval_nat_numeral)
  then show ?thesis
    by (simp add: mix_block_def)
qed

lemma length_mix_block [simp]: "length mix_block = 32"
  by (simp add: mix_block_bytes)

lemma words_mix_block:
  "le_word (take 8 mix_block) = MIX"
  "le_word (take 8 (drop 8 mix_block)) = MIX"
  "le_word (take 8 (drop 16 mix_block)) = MIX"
  "le_word (take 8 (drop 24 mix_block)) = MIX"
  by (simp_all add: mix_block_bytes MIX_def)

lemma xor_twice: "(a XOR b) XOR b = (a :: u64)"
  by (simp add: xor.assoc)

lemma absorb_mix_block_twice:
  assumes "length lanes = 4"
  shows "absorb_block (absorb_block lanes mix_block) mix_block = lanes"
proof -
  have "absorb_block (absorb_block lanes mix_block) mix_block
      = [lanes ! 0, lanes ! 1, lanes ! 2, lanes ! 3]"
    unfolding absorb_block_def words_mix_block
    by (simp add: mix_MIX xor_twice)
  then show ?thesis
    using four_lanes [OF assms] by simp
qed

lemma absorb_mix_blocks:
  assumes "length lanes = 4"
  shows "absorb lanes (concat (replicate (2 * k) mix_block)) = (lanes, [])"
proof (induction k)
  case 0
  then show ?case by (simp add: absorb_short)
next
  case (Suc k)
  have "absorb lanes (concat (replicate (2 * Suc k) mix_block))
      = absorb lanes (mix_block @ mix_block @ concat (replicate (2 * k) mix_block))"
    by simp
  also have "\<dots> = absorb (absorb_block (absorb_block lanes mix_block) mix_block)
      (concat (replicate (2 * k) mix_block))"
    by (simp add: absorb_block_first)
  finally show ?case
    using Suc by (simp add: absorb_mix_block_twice [OF assms])
qed

lemma length_four_gigabytes: "length four_gigabytes = 2 ^ 32"
proof -
  have "length (concat (replicate n mix_block)) = n * 32" for n
    by (induction n) simp_all
  then show ?thesis
    by (simp add: four_gigabytes_def)
qed

lemma absorb_four_gigabytes:
  assumes "length lanes = 4"
  shows "absorb lanes four_gigabytes = (lanes, [])"
proof -
  have "(2 :: nat) ^ 27 = 2 * 2 ^ 26"
    by simp
  then show ?thesis
    unfolding four_gigabytes_def using absorb_mix_blocks [OF assms, of "2 ^ 26"] by (simp only:)
qed

lemma insert_four_gigabytes:
  "insert_bytes (jsHash_new 42) four_gigabytes = Inr big_state"
  "wf_hash big_state" "v big_state = v (jsHash_new 42)" "pending big_state = []"
  "nbytes big_state = 2 ^ 32"
proof -
  have len: "length four_gigabytes < 2 ^ 64"
    by (simp add: length_four_gigabytes)
  have "unat (nbytes (jsHash_new 42)) + length four_gigabytes < 2 ^ 64"
    by (simp add: length_four_gigabytes)
  with insert_bytes_nbytes [OF len, of "jsHash_new 42"]
  obtain h where h: "insert_bytes (jsHash_new 42) four_gigabytes = Inr h"
    by blast
  then show ins: "insert_bytes (jsHash_new 42) four_gigabytes = Inr big_state"
    by (simp add: big_state_def)
  have lanes: "length (v (jsHash_new 42)) = 4"
    using wf_hash_new [of 42] by (simp add: wf_hash_def)
  from insert_bytes_absorb [OF wf_hash_new ins]
  show "wf_hash big_state" "v big_state = v (jsHash_new 42)" "pending big_state = []"
    "nbytes big_state = 2 ^ 32"
    by (simp_all add: absorb_four_gigabytes [OF lanes] length_four_gigabytes)
qed

lemma lanes_42:
  "v (jsHash_new 42) = [13679457532755275413, 2949826092126892291, 5139283748462763858,
  6349198060258255764]"
  by (simp add: jsHash_new_def SplitMix64_def)

lemmas finish_eval = finish_def mix_def MIX_def PHI_def PHI2_def rotl_def Let_def

lemma finish_full:
  "finish [13679457532755275413, 2949826092126892291, 5139283748462763858,
  6349198060258255764] 4294967296 1 = [14149939543080433389, 15691476022406087238, 16576513909301323783,
  8921245854736644889]"
  by (simp add: finish_eval cong: let_weak_cong)

lemma finish_low:
  "finish [13679457532755275413, 2949826092126892291, 5139283748462763858,
  6349198060258255764] 0 1 = [3617811048585536237, 15646607771882717426, 1672213546963575871,
  16629113826180251851]"
  by (simp add: finish_eval cong: let_weak_cong)

lemma padded_big_state: "padded_lanes big_state = [13679457532755275413, 2949826092126892291, 5139283748462763858,
  6349198060258255764]"
  by (simp add: padded_lanes_def insert_four_gigabytes lanes_42)

text \<open>
  Claim C1, on the code. After the four-gigabyte input the byte counter is \<open>2 ^ 32\<close>.
  \<open>hash256\<close> injects the whole counter into lane \<open>a\<close>, where the claim (and the comment
  in the source) has its low 32 bits: the digest the code returns is not the one the claim
  describes.
\<close>

theorem hash256_full_counter:
  "insert_bytes (jsHash_new 42) four_gigabytes = Inr big_state
   \<and> nbytes big_state = 2 ^ 32
   \<and> hash256 big_state = [14149939543080433389, 15691476022406087238, 16576513909301323783,
        8921245854736644889]
   \<and> digest256 big_state = [3617811048585536237, 15646607771882717426, 1672213546963575871,
        16629113826180251851]"
  by (simp add: insert_four_gigabytes hash256_finish digest256_def padded_big_state
      low32_def high32_def finish_full finish_low)

lemma length_bytes_block [simp]: "length (bytes_block bs) = 8"
  by (simp add: bytes_block_def)

lemma length_encrypt_block [simp]: "length (fst (encrypt_block c blk)) = 8"
  by (simp add: encrypt_block_def Let_def split_def)

lemma hash_secure_take:
  assumes "wf_hash h" and "N \<le> 8"
  shows "hash_secure N key nonce h =
    take N (fst (encrypt_block (ChaCha20_new key nonce 1)
      (secure_words (padded_lanes h) (nbytes h) (high32 (nbytes h)))))"
  using assms(2) by (simp add: hash_secure_words [OF assms(1)] memcpy_def)

lemma low32_small:
  assumes "n < 2 ^ 32"
  shows "low32 n = n"
proof -
  have "unat n < 2 ^ 32"
    using assms by (simp add: word_less_nat_alt)
  then have "take_bit 32 (unat n) = unat n"
    by (simp only: take_bit_nat_eq_self)
  then have "unat (take_bit 32 n) = unat n"
    by (simp only: unsigned_take_bit_eq)
  then show ?thesis
    by (simp only: low32_def word_unat_eq_iff)
qed

text \<open>The two digests of the four-gigabyte state under the zero key and the zero nonce.\<close>

lemma secure_full:
  "fst (encrypt_block (ChaCha20_new [0, 0, 0, 0, 0, 0, 0, 0] [0, 0, 0] 1)
     (secure_words [13679457532755275413, 2949826092126892291, 5139283748462763858,
        6349198060258255764] 4294967296 1))
   = [14406843080987404554, 2731378476768643995, 3330275721148272793,
  13071152342439110022, 4850067412690777897, 15364549599435125204,
  1479375191573129125, 16895248487151736543]"
  by (subst encrypt_block_fresh)
     (simp_all add: secure_words_def ks1 keystream_bytes_def block_bytes_def le_bytes_4 le_bytes_8
        bytes_block_words src64_def)

lemma secure_low:
  "fst (encrypt_block (ChaCha20_new [0, 0, 0, 0, 0, 0, 0, 0] [0, 0, 0] 1)
     (secure_words [13679457532755275413, 2949826092126892291, 5139283748462763858,
        6349198060258255764] 0 1))
   = [14406843080987404554, 2731378476768643995, 3330275721148272793,
  13071152342439110022, 4850067408395810601, 15364549599435125204,
  1479375191573129125, 16895248487151736543]"
  by (subst encrypt_block_fresh)
     (simp_all add: secure_words_def ks1 keystream_bytes_def block_bytes_def le_bytes_4 le_bytes_8
        bytes_block_words src64_def)

text \<open>
  Claim C2, as stated: word 4 of the block is the low 32 bits of the byte count. After the
  four-gigabyte input the 512-bit digest of the code is not the digest of that block.
\<close>

theorem hash_secure_counterexample:
  "hash_secure 8 [0, 0, 0, 0, 0, 0, 0, 0] [0, 0, 0] big_state
   \<noteq> digest_secure 8 [0, 0, 0, 0, 0, 0, 0, 0] [0, 0, 0] big_state"
proof -
  have "hash_secure 8 [0, 0, 0, 0, 0, 0, 0, 0] [0, 0, 0] big_state
      = [14406843080987404554, 2731378476768643995, 3330275721148272793,
  13071152342439110022, 4850067412690777897, 15364549599435125204,
  1479375191573129125, 16895248487151736543]"
    by (simp add: hash_secure_take insert_four_gigabytes padded_big_state high32_def secure_full)
  moreover have "digest_secure 8 [0, 0, 0, 0, 0, 0, 0, 0] [0, 0, 0] big_state
      = [14406843080987404554, 2731378476768643995, 3330275721148272793,
  13071152342439110022, 4850067408395810601, 15364549599435125204,
  1479375191573129125, 16895248487151736543]"
    by (simp add: digest_secure_def insert_four_gigabytes padded_big_state low32_def high32_def
        secure_low)
  ultimately show ?thesis
    by simp
qed

text \<open>
  Claim C2, amended. After padding and absorbing the tail, the block is the four lanes, the
  byte count as a whole 64-bit word, the byte count shifted right by 32, and the two salts;
  the digest is the first \<open>N\<close> words of this block encrypted by a cipher constructed from
  the key and the nonce. While fewer than \<open>2 ^ 32\<close> bytes were inserted, word 4 is the
  low 32 bits of the count and the digest is the one the claim describes.
\<close>

theorem hash_secure_block:
  assumes "wf_hash h" and "N \<le> 8"
  shows "hash_secure N key nonce h =
      take N (fst (encrypt_block (ChaCha20_new key nonce 1)
        (secure_words (padded_lanes h) (nbytes h) (high32 (nbytes h)))))
    \<and> (nbytes h < 2 ^ 32 \<longrightarrow> hash_secure N key nonce h = digest_secure N key nonce h)"
  using hash_secure_take [OF assms] by (simp add: digest_secure_def low32_small)

theorem hash_secure_block_witness:
  "wf_hash (jsHash_new 42) \<and> (4 :: nat) \<le> 8 \<and> nbytes (jsHash_new 42) < 2 ^ 32
   \<and> hash_secure 4 [0, 0, 0, 0, 0, 0, 0, 0] [0, 0, 0] (jsHash_new 42)
       = digest_secure 4 [0, 0, 0, 0, 0, 0, 0, 0] [0, 0, 0] (jsHash_new 42)"
proof -
  have wf: "wf_hash (jsHash_new 42)" and n: "(4 :: nat) \<le> 8"
    and small: "nbytes (jsHash_new 42) < 2 ^ 32"
    by simp_all
  show ?thesis
    using hash_secure_block [OF wf n, of "[0, 0, 0, 0, 0, 0, 0, 0]" "[0, 0, 0]"] wf n small
    by blast
qed

end
